theory Spec2Isabelle
  imports Main "HOL-Library.Word"
begin

unbundle bit_operations_syntax

section \<open>Bytes and little-endian integers\<close>

text \<open>
  Go's \<^verbatim>\<open>binary.LittleEndian.PutUintN(buf, v)\<close> stores \<^verbatim>\<open>byte(v)\<close>, \<^verbatim>\<open>byte(v >> 8)\<close>, ...
  and \<^verbatim>\<open>UintN(buf)\<close> reads \<^verbatim>\<open>buf[0] | buf[1] << 8 | ...\<close>. \<open>le_bytes n v\<close> is the
  sequence of the \<open>n\<close> bytes stored, \<open>le_word\<close> the value read back.
\<close>

type_synonym byte = "8 word"
type_synonym bytes = "byte list"
type_synonym u16 = "16 word"
type_synonym u32 = "32 word"
type_synonym u64 = "64 word"
type_synonym i64 = "64 word" \<comment> \<open>read with \<open>sint\<close>, compared with \<open><s\<close> and \<open>\<le>s\<close>\<close>

fun le_bytes :: "nat \<Rightarrow> 'a::len word \<Rightarrow> bytes" where
  "le_bytes 0 w = []"
| "le_bytes (Suc n) w = ucast w # le_bytes n (drop_bit 8 w)"

fun le_word :: "bytes \<Rightarrow> 'a::len word" where
  "le_word [] = 0"
| "le_word (b # bs) = ucast b OR push_bit 8 (le_word bs)"

text \<open>Go's \<^verbatim>\<open>data[a:b]\<close> for \<open>a \<le> b \<le> len(data)\<close>.\<close>

definition go_slice :: "'a list \<Rightarrow> nat \<Rightarrow> nat \<Rightarrow> 'a list" where
  "go_slice xs a b = take (b - a) (drop a xs)"

section \<open>wal/header.go: the log-info header\<close>

type_synonym LogStatus = u16

record LogInfo =
  version :: u16
  status :: LogStatus
  timeID :: i64
  entryCount :: u32
  lsize :: u32
  loffset :: i64

definition logHeaderSize :: nat where
  "logHeaderSize = 28"

text \<open>
  \<^verbatim>\<open>MarshalBinary\<close> fills the slices \<^verbatim>\<open>buf[:2]\<close>, \<^verbatim>\<open>buf[2:4]\<close>, \<^verbatim>\<open>buf[4:12]\<close>,
  \<^verbatim>\<open>buf[12:16]\<close>, \<^verbatim>\<open>buf[16:20]\<close>, \<^verbatim>\<open>buf[20:28]\<close> of a fresh buffer; they are adjacent and
  cover it, so the buffer is their concatenation. The conversions \<^verbatim>\<open>uint64(l.timeID)\<close> and
  \<^verbatim>\<open>int64(...)\<close> keep the bits.
\<close>

definition MarshalBinary :: "LogInfo \<Rightarrow> bytes" where
  "MarshalBinary l =
     le_bytes 2 (version l) @ le_bytes 2 (status l) @ le_bytes 8 (timeID l) @
     le_bytes 4 (entryCount l) @ le_bytes 4 (lsize l) @ le_bytes 8 (loffset l)"

datatype go_panic = SliceOutOfRange

text \<open>\<^verbatim>\<open>UnmarshalBinary\<close> slices up to \<^verbatim>\<open>data[20:28]\<close>: a shorter buffer panics.\<close>

definition UnmarshalBinary :: "bytes \<Rightarrow> go_panic + LogInfo" where
  "UnmarshalBinary data =
     (if length data < 28 then Inl SliceOutOfRange
      else Inr \<lparr> version = le_word (go_slice data 0 2),
                 status = le_word (go_slice data 2 4),
                 timeID = le_word (go_slice data 4 12),
                 entryCount = le_word (go_slice data 12 16),
                 lsize = le_word (go_slice data 16 20),
                 loffset = le_word (go_slice data 20 28) \<rparr>)"

section \<open>memdb/timemark.go: the time-mark\<close>

type_synonym TimeID = i64

record TimeRecord =
  refs :: i64 \<comment> \<open>Go \<^verbatim>\<open>int\<close> on a 64-bit platform\<close>
  lastUnref :: TimeID

record TimeMark =
  durations :: i64 \<comment> \<open>\<^verbatim>\<open>time.Duration\<close>, nanoseconds\<close>
  timeRecord :: TimeRecord
  records :: "TimeID \<rightharpoonup> TimeRecord"
  releasedRecords :: "TimeID \<rightharpoonup> TimeRecord"

text \<open>
  A reading of the clock, \<^verbatim>\<open>time.Now().UTC()\<close>: whole seconds since the epoch and the
  nanosecond offset within the second. \<^verbatim>\<open>UnixNano()\<close> is the number of nanoseconds since the
  epoch, \<^verbatim>\<open>Nanosecond()\<close> only the offset within the second, in the range [0, 999999999].
\<close>

record Time =
  unixSec :: int
  nsec :: int

definition UnixNano :: "Time \<Rightarrow> i64" where
  "UnixNano t = word_of_int (unixSec t * 1000000000 + nsec t)"

definition Nanosecond :: "Time \<Rightarrow> int" where
  "Nanosecond t = nsec t"

definition newTimeMark :: "i64 \<Rightarrow> Time \<Rightarrow> TimeMark" where
  "newTimeMark expiryDuration now =
     \<lparr> durations = expiryDuration,
       timeRecord = \<lparr> refs = 0, lastUnref = UnixNano now \<rparr>,
       records = Map.empty, releasedRecords = Map.empty \<rparr>"

definition TimeRecord_isExpired :: "TimeRecord \<Rightarrow> i64 \<Rightarrow> Time \<Rightarrow> bool" where
  "TimeRecord_isExpired r expDur now =
     (0 <s lastUnref r \<and> lastUnref r + expDur \<le>s word_of_int (Nanosecond now))"

definition TimeRecord_isReleased :: "TimeRecord \<Rightarrow> TimeID \<Rightarrow> bool" where
  "TimeRecord_isReleased r lu = (0 <s lastUnref r \<and> lastUnref r <s lu)"

definition newTimeRecord :: "TimeMark \<Rightarrow> Time \<Rightarrow> TimeMark" where
  "newTimeRecord tm now = tm\<lparr> timeRecord := \<lparr> refs = 0, lastUnref = UnixNano now \<rparr> \<rparr>"

text \<open>
  \<^verbatim>\<open>add\<close>: the branch \<^verbatim>\<open>if r, ok := tm.records[timeID]; ok { r.refs++ }\<close> increments a
  copy of the map's value that is local to the \<^verbatim>\<open>if\<close> and is never stored; the statement
  after it, \<^verbatim>\<open>tm.records[timeID] = _TimeRecord{refs: 1}\<close>, runs on both paths.
\<close>

definition add :: "TimeMark \<Rightarrow> TimeID \<Rightarrow> TimeMark" where
  "add tm t = tm\<lparr> records := (records tm)(t \<mapsto> \<lparr> refs = 1, lastUnref = 0 \<rparr>) \<rparr>"

definition newTimeID :: "TimeMark \<Rightarrow> Time \<Rightarrow> TimeID \<times> TimeMark" where
  "newTimeID tm now = (UnixNano now, add tm (UnixNano now))"

definition release :: "TimeMark \<Rightarrow> TimeID \<Rightarrow> TimeMark" where
  "release tm t =
     (case records tm t of
        None \<Rightarrow> tm
      | Some r \<Rightarrow>
          (let r1 = r\<lparr> refs := refs r - 1 \<rparr> in
           if 0 <s refs r1 then tm\<lparr> records := (records tm)(t \<mapsto> r1) \<rparr>
           else tm\<lparr> records := (records tm)(t := None),
                     releasedRecords :=
                       (releasedRecords tm)(t \<mapsto> r1\<lparr> lastUnref := lastUnref (timeRecord tm) \<rparr>) \<rparr>))"

definition isReleased :: "TimeMark \<Rightarrow> TimeID \<Rightarrow> bool" where
  "isReleased tm t =
     (case releasedRecords tm t of
        None \<Rightarrow> False
      | Some r \<Rightarrow>
          if refs r = - 1 then False
          else if TimeRecord_isReleased r (lastUnref (timeRecord tm)) then True
          else False)"

definition isAborted :: "TimeMark \<Rightarrow> TimeID \<Rightarrow> bool" where
  "isAborted tm t =
     (case releasedRecords tm t of None \<Rightarrow> False | Some r \<Rightarrow> refs r = - 1)"

definition abort :: "TimeMark \<Rightarrow> TimeID \<Rightarrow> TimeMark" where
  "abort tm t =
     tm\<lparr> records := (records tm)(t := None),
         releasedRecords :=
           (releasedRecords tm)(t \<mapsto> \<lparr> refs = - 1, lastUnref = lastUnref (timeRecord tm) \<rparr>) \<rparr>"

text \<open>
  \<^verbatim>\<open>startExpirer\<close> visits every released record and deletes the expired ones. Each visit
  reads the clock anew: \<open>clk t\<close> is the reading taken when the loop visits \<open>t\<close>. A deletion
  touches no other key, so the order of the visits does not matter.
\<close>

definition startExpirer :: "TimeMark \<Rightarrow> (TimeID \<Rightarrow> Time) \<Rightarrow> TimeMark" where
  "startExpirer tm clk =
     tm\<lparr> releasedRecords :=
           (\<lambda>t. case releasedRecords tm t of
                  None \<Rightarrow> None
                | Some r \<Rightarrow> if TimeRecord_isExpired r (durations tm) (clk t) then None else Some r) \<rparr>"

text \<open>A sweep during which every reading of the clock gives the same time.\<close>

definition fixed_clock :: "Time \<Rightarrow> TimeID \<Rightarrow> Time" where
  "fixed_clock now t = now"

text \<open>
  The expiry test in the words of the specification: the record's stamp is older than the
  expiry duration, measured against the wall clock in nanoseconds.
\<close>

definition spec_isExpired :: "TimeRecord \<Rightarrow> i64 \<Rightarrow> Time \<Rightarrow> bool" where
  "spec_isExpired r expDur now = (sint (lastUnref r) + sint expDur \<le> sint (UnixNano now))"

text \<open>Sequences of time-mark operations.\<close>

datatype tm_op = Add TimeID | Release TimeID | IsReleased TimeID | StartExpirer "TimeID \<Rightarrow> Time"

fun exec_op :: "tm_op \<Rightarrow> TimeMark \<Rightarrow> TimeMark" where
  "exec_op (Add t) tm = add tm t"
| "exec_op (Release t) tm = release tm t"
| "exec_op (IsReleased t) tm = tm"
| "exec_op (StartExpirer clk) tm = startExpirer tm clk"

fun run_ops :: "tm_op list \<Rightarrow> TimeMark \<Rightarrow> TimeMark" where
  "run_ops [] tm = tm"
| "run_ops (x # xs) tm = run_ops xs (exec_op x tm)"

section \<open>wal: the segmented log file\<close>

record Segment =
  seg_offset :: i64
  seg_size :: u32

record Segments =
  sg0 :: Segment
  sg1 :: Segment
  sg2 :: Segment

record File =
  segments :: Segments
  fsize :: i64
  targetSize :: i64

definition currSize :: "Segments \<Rightarrow> u32" where
  "currSize sg = seg_size (sg1 sg)"

definition freeSize :: "Segments \<Rightarrow> i64 \<Rightarrow> u32" where
  "freeSize sg off =
     (if off = seg_offset (sg0 sg) then seg_size (sg0 sg)
      else if off = seg_offset (sg1 sg) then seg_size (sg1 sg)
      else if off = seg_offset (sg2 sg) then seg_size (sg2 sg)
      else 0)"

definition Segments_allocate :: "Segments \<Rightarrow> u32 \<Rightarrow> i64 \<times> Segments" where
  "Segments_allocate sg sz =
     (seg_offset (sg1 sg),
      sg\<lparr> sg1 := \<lparr> seg_offset = seg_offset (sg1 sg) + ucast sz,
                    seg_size = seg_size (sg1 sg) - sz \<rparr> \<rparr>)"

datatype alloc_error = ZeroAllocPanic | TruncateError

text \<open>
  \<^verbatim>\<open>_File.allocate\<close>. The operating system's answer to \<^verbatim>\<open>f.Truncate(n)\<close> is the parameter
  \<open>truncate_ok n\<close>.
\<close>

definition File_allocate :: "(i64 \<Rightarrow> bool) \<Rightarrow> File \<Rightarrow> u32 \<Rightarrow> alloc_error + (i64 \<times> File)" where
  "File_allocate truncate_ok f sz =
     (if sz = 0 then Inl ZeroAllocPanic
      else if fsize f + ucast sz <s targetSize f \<or> currSize (segments f) < sz then
        (let off = fsize f in
         if \<not> truncate_ok (off + ucast sz) then Inl TruncateError
         else Inr (off, f\<lparr> fsize := fsize f + ucast sz \<rparr>))
      else
        (case Segments_allocate (segments f) sz of
           (off, sg') \<Rightarrow> Inr (off, f\<lparr> segments := sg' \<rparr>)))"

text \<open>
  Example data: an operating system that refuses every \<^verbatim>\<open>Truncate\<close>, and a file of 200 bytes
  below its target size of 256.
\<close>

definition never :: "'a \<Rightarrow> bool" where
  "never x = False"

definition short_file :: File where
  "short_file =
     \<lparr> segments = \<lparr> sg0 = \<lparr> seg_offset = 47, seg_size = 0 \<rparr>,
                    sg1 = \<lparr> seg_offset = 47, seg_size = 100 \<rparr>,
                    sg2 = \<lparr> seg_offset = 0, seg_size = 0 \<rparr> \<rparr>,
       fsize = 200, targetSize = 256 \<rparr>"

section \<open>db_internal.go: reading and setting entries\<close>

text \<open>The package's errors (the declarations of the error variables), and a Go panic.\<close>

datatype unitdb_error =
  errMsgIdDeleted | errMsgIdDoesNotExist | errBadRequest | errEntryInvalid
  | errOther nat \<comment> \<open>an error of a collaborator (file system, memdb, codec), by number\<close>

datatype failure = Error unitdb_error | Panic

definition entriesPerIndexBlock :: nat where
  "entriesPerIndexBlock = 255"

text \<open>
  Modelled from the spec: the type \<^verbatim>\<open>slot\<close> is declared outside the files at hand; the
  on-disk slot is the tuple \<open>{seq, topicSize, valueSize, msgOffset, expiresAt, cacheBlock}\<close>.
  The zero value \<^verbatim>\<open>slot{}\<close> has every field zero and no cache block.
\<close>

record slot =
  slot_seq :: u64
  slot_topicSize :: u16
  slot_valueSize :: u32
  slot_msgOffset :: i64
  slot_expiresAt :: u32
  slot_cacheBlock :: bytes

definition zero_slot :: slot where
  "zero_slot = \<lparr> slot_seq = 0, slot_topicSize = 0, slot_valueSize = 0, slot_msgOffset = 0,
                 slot_expiresAt = 0, slot_cacheBlock = [] \<rparr>"

text \<open>
  Modelled from the spec: \<^verbatim>\<open>startBlockIndex\<close> is declared outside the files at hand; the
  index block of a sequence is \<open>(seq - 1) / entriesPerIndexBlock\<close>, an \<^verbatim>\<open>int32\<close>.
\<close>

definition startBlockIndex :: "u64 \<Rightarrow> 32 word" where
  "startBlockIndex sq = ucast ((sq - 1) div 255)"

text \<open>
  What \<^verbatim>\<open>readEntry\<close> calls and the files at hand do not hold is a parameter: the memdb
  probe \<^verbatim>\<open>db.mem.Get(blockID, memseq)\<close> (an error, or the data, \<open>None\<close> for \<^verbatim>\<open>nil\<close>), the
  size and the decoder of a cached entry, \<^verbatim>\<open>blockOffset\<close>, and the read of an index block
  (an error, or the block's array of slots).
\<close>

record ReadDB =
  cacheID :: u64
  mem_Get :: "u64 \<Rightarrow> u64 \<Rightarrow> unitdb_error + bytes option"
  entrySize :: nat
  entry_Unmarshal :: "bytes \<Rightarrow> slot"
  blockOffset :: "32 word \<Rightarrow> i64"
  block_read :: "i64 \<Rightarrow> unitdb_error + slot list"

definition readEntry :: "ReadDB \<Rightarrow> u64 \<Rightarrow> u64 \<Rightarrow> failure + slot" where
  "readEntry db topicHash sq =
     (let blockID = startBlockIndex sq;
          memseq = cacheID db XOR sq
      in case mem_Get db (scast blockID) memseq of
           Inl err \<Rightarrow> Inl (Error errMsgIdDeleted)
         | Inr (Some data) \<Rightarrow>
             if length data < entrySize db then Inl Panic
             else
               (let e = entry_Unmarshal db (take (entrySize db) data)
                in Inr \<lparr> slot_seq = slot_seq e, slot_topicSize = slot_topicSize e,
                          slot_valueSize = slot_valueSize e, slot_msgOffset = 0,
                          slot_expiresAt = 0, slot_cacheBlock = drop (entrySize db) data \<rparr>)
         | Inr None \<Rightarrow>
             (case block_read db (blockOffset db (startBlockIndex sq)) of
                Inl err \<Rightarrow> Inl (Error err)
              | Inr entries \<Rightarrow>
                  (case find (\<lambda>s. slot_seq s = sq) (take entriesPerIndexBlock entries) of
                     Some s \<Rightarrow> Inr s
                   | None \<Rightarrow> Inr zero_slot)))"

text \<open>
  A database whose memdb holds nothing and whose index blocks are all zero: every probe
  misses and no slot carries a sequence other than 0.
\<close>

definition no_data :: "u64 \<Rightarrow> u64 \<Rightarrow> unitdb_error + bytes option" where
  "no_data blockID memseq = Inr None"

definition zero_block :: "i64 \<Rightarrow> unitdb_error + slot list" where
  "zero_block off = Inr (replicate 255 zero_slot)"

definition first_slot :: "bytes \<Rightarrow> slot" where
  "first_slot data = zero_slot"

definition block_at :: "32 word \<Rightarrow> i64" where
  "block_at idx = 4096 * scast idx"

definition empty_db :: ReadDB where
  "empty_db = \<lparr> cacheID = 0, mem_Get = no_data, entrySize = 26, entry_Unmarshal = first_slot,
                blockOffset = block_at, block_read = zero_block \<rparr>"

text \<open>
  \<^verbatim>\<open>setEntry\<close>. The entry's fields; \<^verbatim>\<open>ID\<close> is \<open>None\<close> for a \<^verbatim>\<open>nil\<close> message ID.
\<close>

record Entry =
  parsed :: bool
  Contract :: u32
  Topic :: bytes
  ExpiresAt :: u32
  ID :: "bytes option"
  Payload :: bytes
  topicHash :: u64
  topicSize :: u16
  seq :: u64
  expiresAt :: u32
  valueSize :: u32
  cacheEntry :: bytes

text \<open>
  The state of the database that \<^verbatim>\<open>setEntry\<close> reads and writes: the sequence counter,
  the lease and the encryption flag.
\<close>

record 'l DBSeq =
  sequence :: u64
  lease :: 'l
  encryption :: "8 word"

text \<open>
  The collaborators of \<^verbatim>\<open>setEntry\<close> that the files at hand do not hold are parameters:
  the topic parser (\<^verbatim>\<open>db.parseTopic\<close> over the message package: an error, or the topic and
  its TTL), the topic's hash and encoding, the trie's \<^verbatim>\<open>getOffset\<close>, the sequence of a
  message ID, the lease's \<^verbatim>\<open>getSlot\<close> (\<open>None\<close> when it has no slot for the topic, else the
  sequence and the lease without it), the compressor, the cipher, the entry's
  \<^verbatim>\<open>MarshalBinary\<close>, and the assembly of the cache entry from the encoded entry, the
  message ID with its encryption bit, the raw topic and the value.
\<close>

record ('t, 'l) SetEnv =
  MasterContract :: u32
  parseTopic :: "u32 \<Rightarrow> bytes \<Rightarrow> unitdb_error + ('t \<times> u32)"
  GetHash :: "'t \<Rightarrow> u32 \<Rightarrow> u64"
  Marshal :: "'t \<Rightarrow> bytes"
  trie_getOffset :: "u64 \<Rightarrow> i64 option"
  ID_Sequence :: "bytes \<Rightarrow> u64"
  lease_getSlot :: "'l \<Rightarrow> u64 \<Rightarrow> (u64 \<times> 'l) option"
  snappy_Encode :: "bytes \<Rightarrow> bytes"
  mac_Encrypt :: "bytes \<Rightarrow> bytes"
  Entry_MarshalBinary :: "Entry \<Rightarrow> unitdb_error + bytes"
  pack :: "bytes \<Rightarrow> u64 \<Rightarrow> u32 \<Rightarrow> 8 word \<Rightarrow> bytes \<Rightarrow> bytes \<Rightarrow> bytes"

definition nextSeq :: "'l DBSeq \<Rightarrow> u64 \<times> 'l DBSeq" where
  "nextSeq db = (sequence db + 1, db\<lparr> sequence := sequence db + 1 \<rparr>)"

text \<open>The first part of \<^verbatim>\<open>setEntry\<close>: parsing, for an entry that is not parsed yet.\<close>

definition setEntry_parse ::
  "('t, 'l) SetEnv \<Rightarrow> Entry \<Rightarrow> unitdb_error + (Entry \<times> bytes)" where
  "setEntry_parse env e =
     (if parsed e then Inr (e, [])
      else
        (let e1 = (if Contract e = 0 then e\<lparr> Contract := MasterContract env \<rparr> else e)
         in case parseTopic env (Contract e1) (Topic e1) of
              Inl err \<Rightarrow> Inl err
            | Inr (t, ttl) \<Rightarrow>
                (let e2 = (if ExpiresAt e1 = 0 \<and> 0 < ttl then e1\<lparr> ExpiresAt := ttl \<rparr> else e1);
                     e3 = e2\<lparr> topicHash := GetHash env t (Contract e2) \<rparr>
                 in case trie_getOffset env (topicHash e3) of
                      None \<Rightarrow>
                        Inr (e3\<lparr> topicSize := word_of_nat (length (Marshal env t)),
                                  parsed := True \<rparr>, Marshal env t)
                    | Some off \<Rightarrow> Inr (e3\<lparr> parsed := True \<rparr>, []))))"

text \<open>The second part: the sequence, from the message ID, the lease or the counter.\<close>

definition setEntry_seq :: "('t, 'l) SetEnv \<Rightarrow> 'l DBSeq \<Rightarrow> Entry \<Rightarrow> u64 \<times> 'l DBSeq" where
  "setEntry_seq env db e =
     (case ID e of
        Some mid \<Rightarrow> (ID_Sequence env mid, db)
      | None \<Rightarrow>
          (case lease_getSlot env (lease db) (topicHash e) of
             Some (s, l') \<Rightarrow> (s, db\<lparr> lease := l' \<rparr>)
           | None \<Rightarrow> nextSeq db))"

definition setEntry ::
  "('t, 'l) SetEnv \<Rightarrow> 'l DBSeq \<Rightarrow> Entry \<Rightarrow> bool \<Rightarrow> failure + (Entry \<times> 'l DBSeq)" where
  "setEntry env db e encr =
     (case setEntry_parse env e of
        Inl err \<Rightarrow> Inl (Error err)
      | Inr (e1, rawTopic) \<Rightarrow>
          (case setEntry_seq env db e1 of
             (sq, db1) \<Rightarrow>
               if sq = 0 then Inl Panic
               else
                 (let e2 = e1\<lparr> seq := sq, expiresAt := ExpiresAt e1 \<rparr>;
                      val0 = snappy_Encode env (Payload e2);
                      enc = (encryption db1 = 1 \<or> encr);
                      eBit = (if enc then 1 else 0);
                      val = (if enc then mac_Encrypt env val0 else val0);
                      e3 = e2\<lparr> valueSize := word_of_nat (length val) \<rparr>
                  in case Entry_MarshalBinary env e3 of
                       Inl err \<Rightarrow> Inl (Error err)
                     | Inr entryData \<Rightarrow>
                         Inr (e3\<lparr> cacheEntry :=
                                    pack env entryData sq (Contract e3) eBit rawTopic val \<rparr>,
                              db1))))"

text \<open>
  A database without topics in the trie and without lease slots, with the identity as
  codec; topics are their bytes.
\<close>

definition parse_any :: "u32 \<Rightarrow> bytes \<Rightarrow> unitdb_error + (bytes \<times> u32)" where
  "parse_any contract topic = Inr (topic, 0)"

definition hash_zero :: "bytes \<Rightarrow> u32 \<Rightarrow> u64" where
  "hash_zero t contract = 0"

definition no_offset :: "u64 \<Rightarrow> i64 option" where
  "no_offset h = None"

definition be_sequence :: "bytes \<Rightarrow> u64" where
  "be_sequence mid = le_word (rev (take 8 mid))"

definition no_slot :: "unit \<Rightarrow> u64 \<Rightarrow> (u64 \<times> unit) option" where
  "no_slot l h = None"

definition same_bytes :: "bytes \<Rightarrow> bytes" where
  "same_bytes b = b"

definition marshal_none :: "Entry \<Rightarrow> unitdb_error + bytes" where
  "marshal_none e = Inr []"

definition pack_concat :: "bytes \<Rightarrow> u64 \<Rightarrow> u32 \<Rightarrow> 8 word \<Rightarrow> bytes \<Rightarrow> bytes \<Rightarrow> bytes" where
  "pack_concat entryData sq contract eBit rawTopic val =
     entryData @ [ucast (drop_bit 8 sq), ucast sq, eBit] @ rawTopic @ val"

definition plain_env :: "(bytes, unit) SetEnv" where
  "plain_env = \<lparr> MasterContract = 1, parseTopic = parse_any, GetHash = hash_zero,
                 Marshal = same_bytes, trie_getOffset = no_offset, ID_Sequence = be_sequence,
                 lease_getSlot = no_slot, snappy_Encode = same_bytes, mac_Encrypt = same_bytes,
                 Entry_MarshalBinary = marshal_none, pack = pack_concat \<rparr>"

definition new_entry :: "bytes \<Rightarrow> bytes \<Rightarrow> Entry" where
  "new_entry topic payload =
     \<lparr> parsed = False, Contract = 0, Topic = topic, ExpiresAt = 0, ID = None,
       Payload = payload, topicHash = 0, topicSize = 0, seq = 0, expiresAt = 0,
       valueSize = 0, cacheEntry = [] \<rparr>"

section \<open>memdb: the cache DB\<close>

datatype mem_error =
  errNotFound \<comment> \<open>\<^verbatim>\<open>cache for entry seq not found\<close>\<close>
  | errFull | errOutOfRange

datatype mem_failure = MemError mem_error | MemPanic

text \<open>
  Modelled from the spec: the table manager behind \<^verbatim>\<open>blockCache\<close> (its \<^verbatim>\<open>allocate\<close>,
  \<^verbatim>\<open>writeAt\<close> and \<^verbatim>\<open>readRaw\<close>) is declared outside the files at hand. It is the
  append-only byte slab of a memdb block: \<^verbatim>\<open>allocate(n)\<close> extends the slab by \<open>n\<close> bytes
  and returns the old size as the offset, failing when the slab would grow beyond its
  capacity; \<^verbatim>\<open>writeAt\<close> overwrites and \<^verbatim>\<open>readRaw\<close> reads a range of the slab, and both
  fail for a range that is not inside it. The slab's size is the length of \<open>tbuf\<close>.
\<close>

record Table =
  tbuf :: bytes
  tcap :: nat

definition Table_allocate :: "Table \<Rightarrow> nat \<Rightarrow> mem_error + (int \<times> Table)" where
  "Table_allocate t n =
     (if tcap t < length (tbuf t) + n then Inl errFull
      else Inr (int (length (tbuf t)), t\<lparr> tbuf := tbuf t @ replicate n 0 \<rparr>))"

definition Table_writeAt :: "Table \<Rightarrow> bytes \<Rightarrow> int \<Rightarrow> mem_error + Table" where
  "Table_writeAt t data off =
     (if off < 0 \<or> length (tbuf t) < nat off + length data then Inl errOutOfRange
      else Inr (t\<lparr> tbuf := take (nat off) (tbuf t) @ data @
                              drop (nat off + length data) (tbuf t) \<rparr>))"

definition Table_readRaw :: "Table \<Rightarrow> int \<Rightarrow> nat \<Rightarrow> mem_error + bytes" where
  "Table_readRaw t off n =
     (if off < 0 \<or> length (tbuf t) < nat off + n then Inl errOutOfRange
      else Inr (go_slice (tbuf t) (nat off) (nat off + n)))"







section \<open>wal/reader.go: reading the recovered logs\<close>

text \<open>
  Modelled from the spec: the constants of \<^verbatim>\<open>LogStatus\<close> are declared outside the files at
  hand; the statuses are WRITTEN, APPLIED and RELEASED, in this order.
\<close>

definition logStatusWritten :: LogStatus where
  "logStatusWritten = 0"

definition logStatusApplied :: LogStatus where
  "logStatusApplied = 1"

definition logStatusReleased :: LogStatus where
  "logStatusReleased = 2"

datatype wal_error =
  errLogData \<comment> \<open>\<^verbatim>\<open>logData error\<close>\<close>
  | errBuffer | errReadAt | errWriteAt | errWriteHeader | errClosed | errReset
  | errUser nat \<comment> \<open>an error of the caller's callback\<close>

text \<open>
  The WAL as \<^verbatim>\<open>Read\<close> sees it: the recovered logs, the log file with its segments and its
  recorded size, the bytes of the file, and the buffer size of the options.
\<close>

record WAL =
  recoveredLogs :: "LogInfo list"
  logFile :: File
  fileBytes :: bytes
  BufferSize :: i64

record Reader =
  r_entryCount :: u32
  r_logData :: bytes
  r_offset :: i64

text \<open>
  What the callback of \<^verbatim>\<open>Read\<close> returns: \<^verbatim>\<open>(stop, err)\<close>, or a panic. The callback is a
  closure: it works on the reader and on a state of its own.
\<close>

datatype cb_ret = CbRet bool "wal_error option" | CbPanic

type_synonym 's callback = "i64 \<Rightarrow> Reader \<Rightarrow> 's \<Rightarrow> cb_ret \<times> Reader \<times> 's"

text \<open>
  The collaborators of \<^verbatim>\<open>Read\<close>. The buffer pool and the file are outside the files at
  hand: \<open>Extend_ok n\<close> says whether the buffer can be extended to \<open>n\<close> bytes, \<open>WriteAt_ok\<close>
  and \<open>writeHeader_ok\<close> whether the operating system carries out a write. A read of the
  file fails unless the whole range lies inside the file, a slice of the buffer unless the
  range lies inside the buffer.
\<close>

record IOEnv =
  Extend_ok :: "i64 \<Rightarrow> bool"
  WriteAt_ok :: "bytes \<Rightarrow> i64 \<Rightarrow> bool"
  writeHeader_ok :: bool

definition file_readAt :: "bytes \<Rightarrow> i64 \<Rightarrow> i64 \<Rightarrow> bytes option" where
  "file_readAt fb n off =
     (if sint off < 0 \<or> sint n < 0 \<or> int (length fb) < sint off + sint n then None
      else Some (go_slice fb (nat (sint off)) (nat (sint off) + nat (sint n))))"

definition file_writeAt :: "IOEnv \<Rightarrow> bytes \<Rightarrow> bytes \<Rightarrow> i64 \<Rightarrow> bytes option" where
  "file_writeAt env fb b off =
     (if sint off < 0 \<or> \<not> WriteAt_ok env b off then None
      else Some (take (nat (sint off)) (fb @ replicate (nat (sint off) - length fb) 0) @ b @
                 drop (nat (sint off) + length b) fb))"

definition buffer_Slice :: "bytes \<Rightarrow> i64 \<Rightarrow> i64 \<Rightarrow> bytes option" where
  "buffer_Slice buf a b =
     (if sint a < 0 \<or> sint b < sint a \<or> int (length buf) < sint b then None
      else Some (go_slice buf (nat (sint a)) (nat (sint b))))"

text \<open>
  The state of the loops of \<^verbatim>\<open>Read\<close>: the locals \<^verbatim>\<open>idx\<close>, \<^verbatim>\<open>size\<close>, \<^verbatim>\<open>fileOff\<close>,
  \<^verbatim>\<open>offset\<close>, the buffer, the WAL, the reader, the callback's state, and the time IDs the
  callback has been called with so far (a record of the run, not a variable of the code).
  The inner loop's \<^verbatim>\<open>i\<close> starts at \<^verbatim>\<open>idx\<close>, and \<^verbatim>\<open>idx++\<close> goes with every \<^verbatim>\<open>i++\<close>: the
  two are one variable here.
\<close>

record 's RState =
  st_idx :: nat
  st_size :: i64
  st_fileOff :: i64
  st_offset :: i64
  st_buf :: bytes
  st_wal :: WAL
  st_rdr :: Reader
  st_user :: 's
  st_calls :: "i64 list"

datatype ret = Ret "wal_error option" | RetPanic

datatype 's step = Return ret "'s RState" | Break "'s RState" | Finished "'s RState"

definition skipped :: "LogInfo \<Rightarrow> bool" where
  "skipped ul = (entryCount ul = 0 \<or> status ul \<noteq> logStatusWritten)"

definition advance :: "WAL \<Rightarrow> LogInfo \<Rightarrow> i64 \<Rightarrow> i64" where
  "advance w ul off =
     off + ucast (lsize ul) +
     ucast (freeSize (segments (logFile w)) (loffset ul + ucast (lsize ul)))"

text \<open>
  One round of the inner loop, \<^verbatim>\<open>for i := idx; i < l; i++\<close>, for \<open>i < l\<close>: either the loop
  is left (by \<^verbatim>\<open>return\<close> or \<^verbatim>\<open>break\<close>), or it goes on with the next \<open>i\<close>.
\<close>

datatype 's round = Leave "'s step" | Continue "'s RState"

definition scan_body :: "IOEnv \<Rightarrow> 's callback \<Rightarrow> 's RState \<Rightarrow> 's round" where
  "scan_body env f st =
     (let w = st_wal st; i = st_idx st; ul = recoveredLogs w ! i in
      if skipped ul then
        Continue (st\<lparr> st_offset := advance w ul (st_offset st), st_idx := i + 1 \<rparr>)
      else if st_size st <s ucast (lsize ul) then
        Leave (Break (st\<lparr> st_size := ucast (lsize ul) \<rparr>))
      else if st_size st - st_offset st <s ucast (lsize ul) then
        Leave (Break (st\<lparr> st_fileOff := loffset ul,
                           st_size := fsize (logFile w) - loffset ul \<rparr>))
      else
        (case buffer_Slice (st_buf st) (st_offset st + 28) (st_offset st + ucast (lsize ul)) of
           None \<Rightarrow> Leave (Return (Ret (Some errBuffer)) st)
         | Some data \<Rightarrow>
             (case f (timeID ul)
                     \<lparr> r_entryCount = entryCount ul, r_logData = data, r_offset = 0 \<rparr>
                     (st_user st) of
                (c, r', u') \<Rightarrow>
                  (let st1 = st\<lparr> st_rdr := r', st_user := u',
                                  st_calls := st_calls st @ [timeID ul] \<rparr>
                   in case c of
                        CbPanic \<Rightarrow> Leave (Return RetPanic st1)
                      | CbRet stop err \<Rightarrow>
                          if stop \<or> err \<noteq> None then Leave (Return (Ret err) st1)
                          else
                            (let ul' = ul\<lparr> status := logStatusReleased \<rparr>;
                                 w1 = w\<lparr> recoveredLogs := (recoveredLogs w)[i := ul'] \<rparr>
                             in case file_writeAt env (fileBytes w1) (MarshalBinary ul')
                                       (loffset ul') of
                                  None \<Rightarrow>
                                    Leave (Return (Ret (Some errWriteAt)) (st1\<lparr> st_wal := w1 \<rparr>))
                                | Some fb \<Rightarrow>
                                    Continue (st1\<lparr> st_wal := w1\<lparr> fileBytes := fb \<rparr>,
                                                   st_offset := advance w ul (st_offset st),
                                                   st_idx := i + 1 \<rparr>))))))"

lemma scan_body_Continue:
  assumes "scan_body env f st = Continue st2"
  shows "st_idx st2 = st_idx st + 1 \<and>
         length (recoveredLogs (st_wal st2)) = length (recoveredLogs (st_wal st))"
  using assms
  by (auto simp: scan_body_def Let_def
        split: if_splits option.splits prod.splits cb_ret.splits)

text \<open>The inner loop.\<close>

function scan :: "IOEnv \<Rightarrow> 's callback \<Rightarrow> 's RState \<Rightarrow> 's step" where
  "scan env f st =
     (if length (recoveredLogs (st_wal st)) \<le> st_idx st then Finished st
      else
        (case scan_body env f st of
           Leave r \<Rightarrow> r
         | Continue st2 \<Rightarrow> scan env f st2))"
  by pat_completeness auto
termination
proof (relation "measure (\<lambda>(env, f, st). length (recoveredLogs (st_wal st)) - st_idx st)")
  show "wf (measure (\<lambda>(env, f, st). length (recoveredLogs (st_wal st)) - st_idx st))"
    by simp
next
  fix env :: IOEnv and f :: "'s callback" and st st2 :: "'s RState"
  assume "\<not> length (recoveredLogs (st_wal st)) \<le> st_idx st"
    and "scan_body env f st = Continue st2"
  then show "((env, f, st2), (env, f, st))
      \<in> measure (\<lambda>(env, f, st). length (recoveredLogs (st_wal st)) - st_idx st)"
    using scan_body_Continue [of env f st st2] by simp
qed

declare scan.simps [simp del]

text \<open>
  The outer loop stops or moves on: when the inner loop breaks without having passed a
  log, it has set \<^verbatim>\<open>size\<close> to the size of the log at \<^verbatim>\<open>idx\<close>, and the next round passes
  that log. \<open>grow_flag\<close> is 1 while the buffer is smaller than the log at \<^verbatim>\<open>idx\<close>.
\<close>

definition grow_flag :: "'s RState \<Rightarrow> nat" where
  "grow_flag st =
     (if st_idx st < length (recoveredLogs (st_wal st)) \<and>
         \<not> skipped (recoveredLogs (st_wal st) ! st_idx st) \<and>
         st_size st <s ucast (lsize (recoveredLogs (st_wal st) ! st_idx st))
      then 1 else 0)"

definition read_measure :: "'s RState \<Rightarrow> nat" where
  "read_measure st = 2 * (length (recoveredLogs (st_wal st)) - st_idx st) + grow_flag st"

definition break_progress :: "'s RState \<Rightarrow> 's RState \<Rightarrow> bool" where
  "break_progress st st' =
     (length (recoveredLogs (st_wal st')) = length (recoveredLogs (st_wal st)) \<and>
      st_idx st' < length (recoveredLogs (st_wal st')) \<and>
      (st_idx st < st_idx st' \<or>
       st_idx st' = st_idx st \<and> (st_offset st \<noteq> 0 \<or> grow_flag st = 1 \<and> grow_flag st' = 0)))"

lemma scan_body_Break:
  assumes "scan_body env f st = Leave (Break st')"
    and "st_idx st < length (recoveredLogs (st_wal st))"
  shows "break_progress st st'"
proof -
  let ?ul = "recoveredLogs (st_wal st) ! st_idx st"
  let ?x = "ucast (lsize ?ul) :: i64"
  from assms(1) have ns: "\<not> skipped ?ul"
    by (auto simp: scan_body_def Let_def split: if_splits)
  show ?thesis
  proof (cases "st_size st <s ?x")
    case True
    with assms(1) ns have "st' = st\<lparr> st_size := ?x \<rparr>"
      by (simp add: scan_body_def Let_def)
    with True ns assms(2) show ?thesis
      by (simp add: break_progress_def grow_flag_def)
  next
    case False
    show ?thesis
    proof (cases "st_size st - st_offset st <s ?x")
      case True
      with assms(1) ns False
      have st': "st' = st\<lparr> st_fileOff := loffset ?ul,
                           st_size := fsize (logFile (st_wal st)) - loffset ?ul \<rparr>"
        by (simp add: scan_body_def Let_def)
      from True False have "st_offset st \<noteq> 0"
        by auto
      with st' assms(2) show ?thesis
        by (simp add: break_progress_def)
    next
      case nb: False
      with assms(1) ns False show ?thesis
        by (auto simp: scan_body_def Let_def
              split: if_splits option.splits prod.splits cb_ret.splits)
    qed
  qed
qed

lemma scan_Break: "scan env f st = Break st' \<Longrightarrow> break_progress st st'"
proof (induction env f st rule: scan.induct)
  case (1 env f st)
  have lt: "st_idx st < length (recoveredLogs (st_wal st))"
  proof (rule ccontr)
    assume "\<not> st_idx st < length (recoveredLogs (st_wal st))"
    with "1.prems" show False
      by (subst (asm) scan.simps) simp
  qed
  then have nle: "\<not> length (recoveredLogs (st_wal st)) \<le> st_idx st"
    by simp
  show ?case
  proof (cases "scan_body env f st")
    case (Leave r)
    with "1.prems" nle have "r = Break st'"
      by (subst (asm) scan.simps) simp
    with Leave lt show ?thesis
      by (simp add: scan_body_Break)
  next
    case (Continue st2)
    with "1.prems" nle have "scan env f st2 = Break st'"
      by (subst (asm) scan.simps) simp
    from "1.IH" [OF nle Continue this] scan_body_Continue [OF Continue] show ?thesis
      by (auto simp: break_progress_def)
  qed
qed

lemma break_progress_measure:
  assumes "break_progress st st'" and "st_offset st = 0"
  shows "read_measure st' < read_measure st"
proof -
  have "grow_flag st' \<le> 1"
    by (simp add: grow_flag_def)
  with assms show ?thesis
    by (auto simp: break_progress_def read_measure_def)
qed

text \<open>
  The outer loop, \<^verbatim>\<open>for { ... if idx == l { break } }\<close>. It is left by a \<^verbatim>\<open>return\<close> or,
  when the inner loop has passed every log, by its \<^verbatim>\<open>break\<close>.
\<close>

function read_loop :: "IOEnv \<Rightarrow> 's callback \<Rightarrow> 's RState \<Rightarrow> 's step" where
  "read_loop env f st =
     (let st0 = st\<lparr> st_buf := [], st_offset := 0 \<rparr> in
      if \<not> Extend_ok env (st_size st) then Return (Ret (Some errBuffer)) st0
      else
        (case file_readAt (fileBytes (st_wal st)) (st_size st) (st_fileOff st) of
           None \<Rightarrow> Return (Ret (Some errReadAt)) st0
         | Some b \<Rightarrow>
             (case scan env f (st0\<lparr> st_buf := b \<rparr>) of
                Return r st' \<Rightarrow> Return r st'
              | Finished st' \<Rightarrow> Finished st'
              | Break st' \<Rightarrow> read_loop env f st')))"
  by pat_completeness auto
termination
proof (relation "measure (\<lambda>(env, f, st). read_measure st)")
  show "wf (measure (\<lambda>(env, f, st). read_measure st))"
    by simp
next
  fix env :: IOEnv and f :: "'s callback" and st st0 st' :: "'s RState" and b :: bytes
  assume st0: "st0 = st\<lparr> st_buf := [], st_offset := 0 \<rparr>"
    and "scan env f (st0\<lparr> st_buf := b \<rparr>) = Break st'"
  then have "break_progress (st0\<lparr> st_buf := b \<rparr>) st'"
    by (simp add: scan_Break)
  then have "read_measure st' < read_measure (st0\<lparr> st_buf := b \<rparr>)"
    by (rule break_progress_measure) (simp add: st0)
  also have "read_measure (st0\<lparr> st_buf := b \<rparr>) = read_measure st"
    by (simp add: st0 read_measure_def grow_flag_def)
  finally show "((env, f, st'), (env, f, st)) \<in> measure (\<lambda>(env, f, st). read_measure st)"
    by simp
qed

declare read_loop.simps [simp del]

text \<open>
  The loop that \<^verbatim>\<open>Read\<close> starts with: it takes the released logs out of
  \<^verbatim>\<open>recoveredLogs\<close>, one at a time, and keeps the others in their order.
\<close>

fun remove_released :: "LogInfo list \<Rightarrow> LogInfo list" where
  "remove_released [] = []"
| "remove_released (x # xs) =
     (if status x = logStatusReleased then remove_released xs else x # remove_released xs)"

text \<open>
  The size of the first buffer: from the first log to the end of the file, and the buffer
  size of the options at most.
\<close>

definition first_size :: "WAL \<Rightarrow> i64" where
  "first_size w =
     (let size0 = fsize (logFile w) - loffset (hd (recoveredLogs w))
      in if BufferSize w <s size0 then BufferSize w else size0)"

text \<open>
  \<^verbatim>\<open>Read\<close>. The deferred function runs on every way out, a panic of the callback
  included: it truncates \<^verbatim>\<open>recoveredLogs\<close> to \<^verbatim>\<open>recoveredLogs[:0]\<close>. The result is what
  \<^verbatim>\<open>Read\<close> returns, the WAL, the reader, the callback's state, and the time IDs the
  callback was called with.
\<close>

definition Read ::
  "IOEnv \<Rightarrow> 's callback \<Rightarrow> WAL \<Rightarrow> Reader \<Rightarrow> 's \<Rightarrow> ret \<times> WAL \<times> Reader \<times> 's \<times> i64 list" where
  "Read env f w r u =
     (let w0 = w\<lparr> recoveredLogs := remove_released (recoveredLogs w) \<rparr>;
          deferred = (\<lambda>res st. (res, (st_wal st)\<lparr> recoveredLogs := [] \<rparr>, st_rdr st,
                                 st_user st, st_calls st));
          st = \<lparr> st_idx = 0, st_size = first_size w0,
                 st_fileOff = loffset (hd (recoveredLogs w0)), st_offset = 0,
                 st_buf = [], st_wal = w0, st_rdr = r, st_user = u, st_calls = [] \<rparr>
      in if recoveredLogs w0 = [] then deferred (Ret None) st
         else
           (case read_loop env f st of
              Return res st' \<Rightarrow> deferred res st'
            | Break st' \<Rightarrow> deferred (Ret None) st'
            | Finished st' \<Rightarrow>
                if writeHeader_ok env then deferred (Ret None) st'
                else deferred (Ret (Some errWriteHeader)) st'))"

text \<open>Example data: a callback that rejects every group, and a WAL with one written group.\<close>

definition reject :: "nat callback" where
  "reject tid r n = (CbRet False (Some (errUser 7)), r, Suc n)"

definition always :: "'a \<Rightarrow> bool" where
  "always x = True"

definition always2 :: "'a \<Rightarrow> 'b \<Rightarrow> bool" where
  "always2 x y = True"

definition all_ok :: IOEnv where
  "all_ok = \<lparr> Extend_ok = always, WriteAt_ok = always2, writeHeader_ok = True \<rparr>"

definition one_group :: WAL where
  "one_group =
     \<lparr> recoveredLogs = [\<lparr> version = 1, status = logStatusWritten, timeID = 5, entryCount = 1,
                          lsize = 30, loffset = 0 \<rparr>],
       logFile = \<lparr> segments = \<lparr> sg0 = \<lparr> seg_offset = 47, seg_size = 0 \<rparr>,
                                 sg1 = \<lparr> seg_offset = 47, seg_size = 0 \<rparr>,
                                 sg2 = \<lparr> seg_offset = 0, seg_size = 0 \<rparr> \<rparr>,
                   fsize = 30, targetSize = 256 \<rparr>,
       fileBytes = replicate 30 0,
       BufferSize = 256 \<rparr>"

text \<open>
  \<^verbatim>\<open>Reader.Next\<close>: the next record of the group at hand. Slices are taken by their
  length: a range outside the slice is a panic.
\<close>

datatype 'a res = Ok 'a | Err wal_error | GoPanic

definition Next :: "Reader \<Rightarrow> (bytes \<times> bool) res \<times> Reader" where
  "Next r =
     (if r_entryCount r = 0 then (Ok ([], False), r)
      else
        (let r1 = r\<lparr> r_entryCount := r_entryCount r - 1 \<rparr> in
         if sint (r_offset r1) < 0 \<or> int (length (r_logData r1)) < sint (r_offset r1)
         then (GoPanic, r1)
         else
           (let logData = drop (nat (sint (r_offset r1))) (r_logData r1) in
            if length logData < 4 then (GoPanic, r1)
            else
              (let dataLen = (le_word (go_slice logData 0 4) :: u32) in
               if (word_of_nat (length logData) :: u32) < dataLen then (Err errLogData, r1)
               else
                 (let r2 = r1\<lparr> r_offset := r_offset r1 + ucast dataLen \<rparr> in
                  if unat dataLen < 4 \<or> length logData < unat dataLen then (GoPanic, r2)
                  else (Ok (go_slice logData 4 (unat dataLen), True), r2))))))"

section \<open>memdb: recovery from the log\<close>

text \<open>
  The callback of \<^verbatim>\<open>startRecover\<close>: it reads up to \<^verbatim>\<open>r.Count()\<close> records of the group
  and folds them into the map \<^verbatim>\<open>log\<close>; \<open>recover_records n\<close> is the loop with \<open>n\<close> rounds to
  go.
\<close>

type_synonym logmap = "u64 \<rightharpoonup> bytes"

fun recover_records :: "nat \<Rightarrow> Reader \<Rightarrow> logmap \<Rightarrow> cb_ret \<times> Reader \<times> logmap" where
  "recover_records 0 r log = (CbRet False None, r, log)"
| "recover_records (Suc n) r log =
     (case Next r of
        (Err e, r1) \<Rightarrow> (CbRet False (Some e), r1, log)
      | (GoPanic, r1) \<Rightarrow> (CbPanic, r1, log)
      | (Ok (logData, ok), r1) \<Rightarrow>
          if \<not> ok then (CbRet False None, r1, log)
          else if length logData < 9 then (CbPanic, r1, log)
          else
            (let dBit = logData ! 0;
                 key = (le_word (go_slice logData 1 9) :: u64);
                 val = drop 9 logData
             in if dBit = 1 then recover_records n r1 (log(key := None))
                else recover_records n r1 (log(key \<mapsto> val))))"

definition recover_callback :: "logmap callback" where
  "recover_callback tid r log = recover_records (unat (r_entryCount r)) r log"

text \<open>
  The groups as \<^verbatim>\<open>Read\<close> hands them to the callback, one after the other: the entry count
  and the framed records of each. The replay stops at the first group for which the
  callback does not return \<^verbatim>\<open>(false, nil)\<close>.
\<close>

fun replay :: "Reader list \<Rightarrow> logmap \<Rightarrow> cb_ret \<times> logmap" where
  "replay [] log = (CbRet False None, log)"
| "replay (r # rs) log =
     (case recover_callback 0 r log of
        (CbRet False None, r', log') \<Rightarrow> replay rs log'
      | (c, r', log') \<Rightarrow> (c, log'))"

text \<open>
  The memdb block and its \<^verbatim>\<open>put\<close>. Modelled from the spec: the table \<^verbatim>\<open>_DataTable\<close> of a
  block is declared outside the files at hand; it is the append-only slab \<open>Table\<close>.
\<close>

type_synonym Key = "byte \<times> u64" \<comment> \<open>the deleted flag and the key\<close>

definition iKey :: "bool \<Rightarrow> u64 \<Rightarrow> Key" where
  "iKey delFlag k = (if delFlag then 1 else 0, k)"

record Block =
  b_count :: i64
  b_data :: Table
  b_records :: "Key \<rightharpoonup> int"

definition newBlock :: "nat \<Rightarrow> Block" where
  "newBlock cap = \<lparr> b_count = 0, b_data = \<lparr> tbuf = [], tcap = cap \<rparr>, b_records = Map.empty \<rparr>"

definition Block_put :: "Block \<Rightarrow> Key \<Rightarrow> bytes \<Rightarrow> mem_error option \<times> Block" where
  "Block_put b ikey data =
     (let dataLen = (word_of_nat (length data + 8 + 1 + 4) :: u32) in
      case Table_allocate (b_data b) (unat dataLen) of
        Inl err \<Rightarrow> (Some err, b)
      | Inr (off, t1) \<Rightarrow>
          (case Table_writeAt t1 (le_bytes 4 dataLen) off of
             Inl err \<Rightarrow> (Some err, b\<lparr> b_data := t1 \<rparr>)
           | Inr t2 \<Rightarrow>
               (case Table_writeAt t2 (fst ikey # le_bytes 8 (snd ikey)) (off + 4) of
                  Inl err \<Rightarrow> (Some err, b\<lparr> b_data := t2 \<rparr>)
                | Inr t3 \<Rightarrow>
                    (let b3 = b\<lparr> b_data := t3, b_records := (b_records b)(ikey \<mapsto> off) \<rparr> in
                     case Table_writeAt t3 data (off + 8 + 1 + 4) of
                       Inl err \<Rightarrow> (Some err, b3)
                     | Inr t4 \<Rightarrow>
                         (None, b3\<lparr> b_data := t4,
                                    b_count := (if fst ikey = 0 then b_count b3 + 1
                                                else b_count b3) \<rparr>)))))"

text \<open>
  The mem store: its blocks by time ID, the time ID and the count of the current tiny
  batch, and the capacity of a new block's table. \<^verbatim>\<open>db.delete\<close> is in the files at hand.
  Modelled from the spec: \<^verbatim>\<open>db.Put\<close> is declared outside them; it chooses or creates the
  block of the current tiny batch's time ID, appends the record with \<open>delFlag = 0\<close> to it
  and increments the tiny batch's count, as \<^verbatim>\<open>db.delete\<close> does with \<open>delFlag = 1\<close> and the
  time ID as the payload.
\<close>

record MemDB =
  m_blockCache :: "TimeID \<rightharpoonup> Block"
  m_timeID :: TimeID
  m_tinyCount :: nat
  m_cap :: nat

definition current_block :: "MemDB \<Rightarrow> Block" where
  "current_block db =
     (case m_blockCache db (m_timeID db) of None \<Rightarrow> newBlock (m_cap db) | Some b \<Rightarrow> b)"

definition MemDB_delete :: "MemDB \<Rightarrow> u64 \<Rightarrow> MemDB" where
  "MemDB_delete db key =
     (case Block_put (current_block db) (iKey True key) (le_bytes 8 (m_timeID db)) of
        (err, b) \<Rightarrow>
          db\<lparr> m_blockCache := (m_blockCache db)(m_timeID db \<mapsto> b),
              m_tinyCount := m_tinyCount db + 1 \<rparr>)"

definition MemDB_Put :: "MemDB \<Rightarrow> u64 \<Rightarrow> bytes \<Rightarrow> mem_error option \<times> MemDB" where
  "MemDB_Put db key data =
     (case Block_put (current_block db) (iKey False key) data of
        (Some err, b) \<Rightarrow> (Some err, db\<lparr> m_blockCache := (m_blockCache db)(m_timeID db \<mapsto> b) \<rparr>)
      | (None, b) \<Rightarrow>
          (None, db\<lparr> m_blockCache := (m_blockCache db)(m_timeID db \<mapsto> b),
                      m_tinyCount := m_tinyCount db + 1 \<rparr>))"

text \<open>
  Modelled from the spec: \<^verbatim>\<open>db.Get\<close> is declared outside the files at hand; it probes the
  records of the blocks for the key and returns the first match, otherwise not found. The
  record is read as \<^verbatim>\<open>tinyWrite\<close> reads it (the length, then the whole record); the payload
  comes after the length, the flag and the key.
\<close>

definition Block_get :: "Block \<Rightarrow> u64 \<Rightarrow> mem_failure + bytes" where
  "Block_get b key =
     (case b_records b (iKey False key) of
        None \<Rightarrow> Inl (MemError errNotFound)
      | Some off \<Rightarrow>
          (case Table_readRaw (b_data b) off 4 of
             Inl err \<Rightarrow> Inl (MemError err)
           | Inr scratch \<Rightarrow>
               (let dataLen = (le_word (take 4 scratch) :: u32) in
                case Table_readRaw (b_data b) off (unat dataLen) of
                  Inl err \<Rightarrow> Inl (MemError err)
                | Inr data \<Rightarrow>
                    if length data < 8 + 1 + 4 then Inl MemPanic
                    else Inr (drop (8 + 1 + 4) data))))"

definition MemDB_Get :: "MemDB \<Rightarrow> u64 \<Rightarrow> mem_failure + bytes" where
  "MemDB_Get db key =
     (case m_blockCache db (m_timeID db) of
        None \<Rightarrow> Inl (MemError errNotFound)
      | Some b \<Rightarrow> Block_get b key)"

text \<open>
  The last loop of \<^verbatim>\<open>startRecover\<close>, \<^verbatim>\<open>for k, val := range log { db.Put(k, val) }\<close>. A
  Go map is ranged over in an order of its own: \<open>ks\<close> is that order, the keys of \<open>log\<close>.
\<close>

fun put_all :: "u64 list \<Rightarrow> logmap \<Rightarrow> MemDB \<Rightarrow> mem_error option \<times> MemDB" where
  "put_all [] log db = (None, db)"
| "put_all (k # ks) log db =
     (case log k of
        None \<Rightarrow> put_all ks log db
      | Some val \<Rightarrow>
          (case MemDB_Put db k val of
             (Some err, db') \<Rightarrow> (Some err, db')
           | (None, db') \<Rightarrow> put_all ks log db'))"

text \<open>
  \<^verbatim>\<open>startRecover\<close>, from the point where the WAL is open and needs recovery. The error
  that \<^verbatim>\<open>Read\<close> returns is assigned and never looked at; a panic goes on. \<^verbatim>\<open>wal.Reset\<close> is
  declared outside the files at hand: \<open>Reset_ok\<close> says whether it succeeds, and it empties
  the log file.
\<close>

datatype recover_ret = RecoverOk | WalError wal_error | MemErr mem_error | RecoverPanic

definition startRecover ::
  "IOEnv \<Rightarrow> bool \<Rightarrow> (logmap \<Rightarrow> u64 list) \<Rightarrow> bool \<Rightarrow> WAL \<Rightarrow> MemDB \<Rightarrow>
   recover_ret \<times> WAL \<times> MemDB" where
  "startRecover env Reset_ok range_order closed w db =
     (if closed then (WalError errClosed, w, db)
      else
        (case Read env recover_callback w \<lparr> r_entryCount = 0, r_logData = [], r_offset = 0 \<rparr>
                Map.empty of
           (RetPanic, w1, r1, log, calls) \<Rightarrow> (RecoverPanic, w1, db)
         | (Ret err, w1, r1, log, calls) \<Rightarrow>
             if \<not> Reset_ok then (WalError errReset, w1, db)
             else
               (let w2 = w1\<lparr> fileBytes := [], logFile := (logFile w1)\<lparr> fsize := 0 \<rparr> \<rparr> in
                case put_all (range_order log) log db of
                  (Some e, db') \<Rightarrow> (MemErr e, w2, db')
                | (None, db') \<Rightarrow> (RecoverOk, w2, db'))))"

text \<open>
  The staged writes in the words of the specification: a put binds the key to its value,
  a delete (with the time ID it was issued under) removes the key.
\<close>

datatype wop = PutOp u64 bytes | DelOp u64 TimeID

fun spec_apply :: "wop \<Rightarrow> logmap \<Rightarrow> logmap" where
  "spec_apply (PutOp k v) m = m(k \<mapsto> v)"
| "spec_apply (DelOp k t) m = m(k := None)"

definition spec_run :: "wop list \<Rightarrow> logmap \<Rightarrow> logmap" where
  "spec_run ops m = fold spec_apply ops m"

text \<open>
  The record of a write, as \<^verbatim>\<open>put\<close> lays it out in the block after the length (the flag,
  the key, the payload) and \<^verbatim>\<open>tinyWrite\<close> appends it to the log. Modelled from the spec:
  the log writer's \<^verbatim>\<open>Append\<close> is declared outside the files at hand; it frames a record
  as \<open>| u32 dataLen | bytes |\<close>, the length counting its own four bytes, as \<^verbatim>\<open>Next\<close>
  reads it.
\<close>

fun record_of :: "wop \<Rightarrow> bytes" where
  "record_of (PutOp k v) = 0 # le_bytes 8 k @ v"
| "record_of (DelOp k t) = 1 # le_bytes 8 k @ le_bytes 8 t"

definition frame :: "bytes \<Rightarrow> bytes" where
  "frame rec = le_bytes 4 (word_of_nat (length rec + 4) :: u32) @ rec"

definition frames :: "wop list \<Rightarrow> bytes" where
  "frames ops = concat (map (\<lambda>x. frame (record_of x)) ops)"

text \<open>
  A group of writes as the reader holds it when the callback is called: the entry count
  and the framed records. The header of a group has 32 bits for each of the two, so a
  group has fewer than \<open>2^32\<close> entries and bytes.
\<close>

definition group_reader :: "wop list \<Rightarrow> Reader" where
  "group_reader ops =
     \<lparr> r_entryCount = word_of_nat (length ops), r_logData = frames ops, r_offset = 0 \<rparr>"

definition group_ok :: "wop list \<Rightarrow> bool" where
  "group_ok ops = (length ops < 2 ^ 32 \<and> length (frames ops) < 2 ^ 32)"

definition fresh_db :: "TimeID \<Rightarrow> nat \<Rightarrow> MemDB" where
  "fresh_db t cap = \<lparr> m_blockCache = Map.empty, m_timeID = t, m_tinyCount = 0, m_cap = cap \<rparr>"

text \<open>
  The layout that lets \<^verbatim>\<open>Read\<close> hand the groups of writes \<open>gs\<close> to the callback in one
  pass over the buffer \<open>buf\<close>: every log is written and not empty, its entry count is that
  of its group, the buffer is large enough for it, and the buffer holds the group's framed
  records where \<^verbatim>\<open>Read\<close> slices them, after the 28 bytes of the header, at the offset that
  the loop has reached. (The log writer, which lays the groups out, is declared outside
  the files at hand.)
\<close>

fun laid_out :: "bytes \<Rightarrow> Segments \<Rightarrow> i64 \<Rightarrow> i64 \<Rightarrow> LogInfo list \<Rightarrow> wop list list \<Rightarrow> bool" where
  "laid_out buf sg off sz [] gs = (gs = [])"
| "laid_out buf sg off sz (l # ls) [] = False"
| "laid_out buf sg off sz (l # ls) (g # gs) =
     (status l = logStatusWritten \<and> entryCount l \<noteq> 0 \<and>
      entryCount l = word_of_nat (length g) \<and> group_ok g \<and> 0 \<le> sint (loffset l) \<and>
      \<not> sz <s ucast (lsize l) \<and> \<not> sz - off <s ucast (lsize l) \<and>
      buffer_Slice buf (off + 28) (off + ucast (lsize l)) = Some (frames g) \<and>
      laid_out buf sg
        (off + ucast (lsize l) + ucast (freeSize sg (loffset l + ucast (lsize l)))) sz ls gs)"

text \<open>
  The WAL that holds the groups \<open>gs\<close>: the first read of the file succeeds and the buffer
  it fills is laid out as above.
\<close>

definition wal_holds :: "WAL \<Rightarrow> wop list list \<Rightarrow> bool" where
  "wal_holds w gs =
     (case recoveredLogs w of
        [] \<Rightarrow> gs = []
      | l # ls \<Rightarrow>
          (case file_readAt (fileBytes w) (first_size w) (loffset l) of
             None \<Rightarrow> False
           | Some buf \<Rightarrow> laid_out buf (segments (logFile w)) 0 (first_size w) (l # ls) gs))"

text \<open>
  Example data: two groups of writes, the log file that holds them one after the other
  (each after the 28 bytes of its header), and an order to range over a map with keys
  among 1, 2 and 3.
\<close>

definition group1 :: "wop list" where
  "group1 = [PutOp 1 [10], PutOp 2 [20]]"

definition group2 :: "wop list" where
  "group2 = [DelOp 1 5, PutOp 3 [30]]"

definition two_groups_bytes :: bytes where
  "two_groups_bytes = replicate 28 0 @ frames group1 @ replicate 28 0 @ frames group2"

definition two_groups :: WAL where
  "two_groups =
     \<lparr> recoveredLogs =
         [\<lparr> version = 1, status = logStatusWritten, timeID = 5, entryCount = 2,
            lsize = 56, loffset = 0 \<rparr>,
          \<lparr> version = 1, status = logStatusWritten, timeID = 6, entryCount = 2,
            lsize = 63, loffset = 56 \<rparr>],
       logFile = \<lparr> segments = \<lparr> sg0 = \<lparr> seg_offset = 47, seg_size = 0 \<rparr>,
                                 sg1 = \<lparr> seg_offset = 47, seg_size = 0 \<rparr>,
                                 sg2 = \<lparr> seg_offset = 0, seg_size = 0 \<rparr> \<rparr>,
                   fsize = 119, targetSize = 256 \<rparr>,
       fileBytes = two_groups_bytes,
       BufferSize = 256 \<rparr>"

definition range_123 :: "logmap \<Rightarrow> u64 list" where
  "range_123 log = filter (\<lambda>k. log k \<noteq> None) [1, 2, 3]"

text \<open>The current block of the mem store holds no put record for the key.\<close>

definition no_record :: "MemDB \<Rightarrow> u64 \<Rightarrow> bool" where
  "no_record db k = (b_records (current_block db) (iKey False k) = None)"

text \<open>
  Example data: the two groups in a log file as the writer leaves it, after the 47 bytes of
  the file's header, each group after its own header of 28 bytes; the second log (63 bytes)
  is larger than a buffer of 60 bytes. \<open>bufSize\<close> is the option \<^verbatim>\<open>BufferSize\<close> of the WAL.
  \<open>read_two_logs\<close> is \<^verbatim>\<open>Read\<close> with the callback of \<^verbatim>\<open>startRecover\<close> on that file, and
  \<open>recovered_log\<close> the map that the callback has built; \<open>recover_two_logs\<close> is
  \<^verbatim>\<open>startRecover\<close> on it with an empty mem store, and \<open>recovered_db\<close> the mem store that it
  leaves behind.
\<close>

definition log_a :: LogInfo where
  "log_a = \<lparr> version = 1, status = logStatusWritten, timeID = 5, entryCount = 2,
             lsize = 56, loffset = 47 \<rparr>"

definition log_b :: LogInfo where
  "log_b = \<lparr> version = 1, status = logStatusWritten, timeID = 6, entryCount = 2,
             lsize = 63, loffset = 103 \<rparr>"

definition two_logs_bytes :: bytes where
  "two_logs_bytes =
     replicate 47 0 @ MarshalBinary log_a @ frames group1 @ MarshalBinary log_b @ frames group2"

definition two_logs :: "i64 \<Rightarrow> WAL" where
  "two_logs bufSize =
     \<lparr> recoveredLogs = [log_a, log_b],
       logFile = \<lparr> segments = \<lparr> sg0 = \<lparr> seg_offset = 47, seg_size = 0 \<rparr>,
                                 sg1 = \<lparr> seg_offset = 166, seg_size = 0 \<rparr>,
                                 sg2 = \<lparr> seg_offset = 0, seg_size = 0 \<rparr> \<rparr>,
                   fsize = 166, targetSize = 256 \<rparr>,
       fileBytes = two_logs_bytes,
       BufferSize = bufSize \<rparr>"

definition read_two_logs :: "i64 \<Rightarrow> ret \<times> WAL \<times> Reader \<times> logmap \<times> i64 list" where
  "read_two_logs bufSize =
     Read all_ok recover_callback (two_logs bufSize)
       \<lparr> r_entryCount = 0, r_logData = [], r_offset = 0 \<rparr> Map.empty"

definition recovered_log :: "i64 \<Rightarrow> logmap" where
  "recovered_log bufSize = fst (snd (snd (snd (read_two_logs bufSize))))"

definition recover_two_logs :: "i64 \<Rightarrow> recover_ret \<times> WAL \<times> MemDB" where
  "recover_two_logs bufSize =
     startRecover all_ok True range_123 False (two_logs bufSize) (fresh_db 9 1024)"

definition recovered_db :: "i64 \<Rightarrow> MemDB" where
  "recovered_db bufSize = snd (snd (recover_two_logs bufSize))"

section \<open>Properties\<close>

subsection \<open>Little-endian encoding\<close>

lemma length_le_bytes: "length (le_bytes n w) = n"
  by (induction n arbitrary: w) auto

lemma le_word_le_bytes: "le_word (le_bytes n w) = (take_bit (8 * n) w :: 'a::len word)"
proof (induction n arbitrary: w)
  case 0
  show ?case by simp
next
  case (Suc n)
  show ?case
    apply (simp add: Suc)
    apply (rule bit_word_eqI)
    apply (auto simp add: bit_simps)
    done
qed

lemma le_word_le_bytes_full:
  "LENGTH('a::len) \<le> 8 * n \<Longrightarrow> le_word (le_bytes n w) = (w :: 'a word)"
  by (simp add: le_word_le_bytes take_bit_word_eq_self)

lemma go_slice_append_left:
  "length xs = a \<Longrightarrow> b \<ge> a \<Longrightarrow> go_slice (xs @ ys) a b = take (b - a) ys"
  by (simp add: go_slice_def)

lemma go_slice_0: "go_slice xs 0 b = take b xs"
  by (simp add: go_slice_def)


subsection \<open>The log-info header\<close>

lemma length_MarshalBinary: "length (MarshalBinary l) = 28"
  by (simp add: MarshalBinary_def length_le_bytes)

lemma UnmarshalBinary_MarshalBinary: "UnmarshalBinary (MarshalBinary l) = Inr l"
  apply (simp add: UnmarshalBinary_def length_MarshalBinary)
  apply (simp add: MarshalBinary_def go_slice_def length_le_bytes le_word_le_bytes_full)
  done

text \<open>
  Claim C8. The header of a WAL group round-trips through its encoding: for every log-info
  value, \<^verbatim>\<open>MarshalBinary\<close> yields exactly 28 bytes holding, in this order, the version (2
  bytes), the status (2), the time ID (8), the entry count (4), the size (4) and the offset
  (8), each little-endian, and \<^verbatim>\<open>UnmarshalBinary\<close> of that buffer restores the six fields.
\<close>

theorem LogInfo_roundtrip:
  "length (MarshalBinary l) = 28 \<and>
   go_slice (MarshalBinary l) 0 2 = le_bytes 2 (version l) \<and>
   go_slice (MarshalBinary l) 2 4 = le_bytes 2 (status l) \<and>
   go_slice (MarshalBinary l) 4 12 = le_bytes 8 (timeID l) \<and>
   go_slice (MarshalBinary l) 12 16 = le_bytes 4 (entryCount l) \<and>
   go_slice (MarshalBinary l) 16 20 = le_bytes 4 (lsize l) \<and>
   go_slice (MarshalBinary l) 20 28 = le_bytes 8 (loffset l) \<and>
   UnmarshalBinary (MarshalBinary l) = Inr l"
proof -
  have "go_slice (MarshalBinary l) 0 2 = le_bytes 2 (version l)"
    and "go_slice (MarshalBinary l) 2 4 = le_bytes 2 (status l)"
    and "go_slice (MarshalBinary l) 4 12 = le_bytes 8 (timeID l)"
    and "go_slice (MarshalBinary l) 12 16 = le_bytes 4 (entryCount l)"
    and "go_slice (MarshalBinary l) 16 20 = le_bytes 4 (lsize l)"
    and "go_slice (MarshalBinary l) 20 28 = le_bytes 8 (loffset l)"
    by (simp_all add: MarshalBinary_def go_slice_def length_le_bytes)
  then show ?thesis
    by (simp only: length_MarshalBinary UnmarshalBinary_MarshalBinary simp_thms)
qed

subsection \<open>The time-mark\<close>

text \<open>
  Claim C2. In the time-mark freshly made at 1600000000 s, \<^verbatim>\<open>add(5)\<close> inserts time ID 5
  with reference count 1, and a second \<^verbatim>\<open>add(5)\<close> leaves the count at 1: the increment is
  lost, the record is overwritten with a count of 1.
\<close>

theorem add_twice_refs_one:
  "records (add (newTimeMark 1000000000 \<lparr> unixSec = 1600000000, nsec = 0 \<rparr>) 5) 5
     = Some \<lparr> refs = 1, lastUnref = 0 \<rparr> \<and>
   records (add (add (newTimeMark 1000000000 \<lparr> unixSec = 1600000000, nsec = 0 \<rparr>) 5) 5) 5
     = Some \<lparr> refs = 1, lastUnref = 0 \<rparr>"
  by (simp add: add_def)

text \<open>
  Claim C3. Time ID 7 is added to and released from a time-mark made at 1600000000 s with
  an expiry duration of one second. When the clock reads 1600000100.5 s the released record
  is 99.5 s past its expiry on the wall clock, and \<^verbatim>\<open>startExpirer\<close> keeps it: the test
  compares the stamp with the clock's offset within the current second.
\<close>

theorem startExpirer_keeps_old_record:
  "releasedRecords
     (release (add (newTimeMark 1000000000 \<lparr> unixSec = 1600000000, nsec = 0 \<rparr>) 7) 7) 7
     = Some \<lparr> refs = 0, lastUnref = 1600000000000000000 \<rparr> \<and>
   spec_isExpired \<lparr> refs = 0, lastUnref = 1600000000000000000 \<rparr> 1000000000
     \<lparr> unixSec = 1600000100, nsec = 500000000 \<rparr> \<and>
   releasedRecords
     (startExpirer
        (release (add (newTimeMark 1000000000 \<lparr> unixSec = 1600000000, nsec = 0 \<rparr>) 7) 7)
        (fixed_clock \<lparr> unixSec = 1600000100, nsec = 500000000 \<rparr>)) 7
     = Some \<lparr> refs = 0, lastUnref = 1600000000000000000 \<rparr>"
  by (simp add: spec_isExpired_def startExpirer_def TimeRecord_isExpired_def UnixNano_def
      Nanosecond_def word_sle_eq word_sless_alt fixed_clock_def add_def release_def
      newTimeMark_def Let_def)

lemma exec_op_stamp_inv:
  "\<forall>u r. releasedRecords tm u = Some r \<longrightarrow> lastUnref r = lastUnref (timeRecord tm) \<Longrightarrow>
   \<forall>u r. releasedRecords (exec_op x tm) u = Some r \<longrightarrow>
           lastUnref r = lastUnref (timeRecord (exec_op x tm))"
  by (cases x)
     (auto simp: add_def release_def startExpirer_def Let_def split: option.splits if_splits)

lemma run_ops_stamp_inv:
  "\<forall>u r. releasedRecords tm u = Some r \<longrightarrow> lastUnref r = lastUnref (timeRecord tm) \<Longrightarrow>
   \<forall>u r. releasedRecords (run_ops xs tm) u = Some r \<longrightarrow>
           lastUnref r = lastUnref (timeRecord (run_ops xs tm))"
proof (induction xs arbitrary: tm)
  case Nil
  then show ?case by simp
next
  case (Cons x xs)
  show ?case using Cons.IH [OF exec_op_stamp_inv [OF Cons.prems]] by simp
qed

lemma same_stamp_not_released:
  "\<forall>u r. releasedRecords tm u = Some r \<longrightarrow> lastUnref r = lastUnref (timeRecord tm) \<Longrightarrow>
   \<not> isReleased tm t"
  by (auto simp: isReleased_def TimeRecord_isReleased_def split: option.splits)

lemma fresh_never_released: "\<not> isReleased (run_ops xs (newTimeMark d now)) t"
  by (rule same_stamp_not_released, rule run_ops_stamp_inv) (simp add: newTimeMark_def)

lemma exec_op_keeps_released:
  "isReleased tm t \<Longrightarrow> x \<noteq> Release t \<Longrightarrow> releasedRecords (exec_op x tm) t \<noteq> None \<Longrightarrow>
   isReleased (exec_op x tm) t"
  by (cases x)
     (auto simp: add_def release_def startExpirer_def isReleased_def Let_def
           split: option.splits if_splits)

lemma exec_op_absent:
  "releasedRecords tm t = None \<Longrightarrow> x \<noteq> Release t \<Longrightarrow> releasedRecords (exec_op x tm) t = None"
  by (cases x)
     (auto simp: add_def release_def startExpirer_def Let_def split: option.splits if_splits)

lemma run_ops_absent:
  "releasedRecords tm t = None \<Longrightarrow> Release t \<notin> set xs \<Longrightarrow>
   releasedRecords (run_ops xs tm) t = None"
  by (induction xs arbitrary: tm) (auto simp: exec_op_absent)

lemma run_ops_keeps_released:
  "isReleased tm t \<Longrightarrow> Release t \<notin> set xs \<Longrightarrow> releasedRecords (run_ops xs tm) t \<noteq> None \<Longrightarrow>
   isReleased (run_ops xs tm) t"
proof (induction xs arbitrary: tm)
  case Nil
  then show ?case by simp
next
  case (Cons x xs)
  have nx: "x \<noteq> Release t" and nxs: "Release t \<notin> set xs"
    using Cons.prems(2) by auto
  have "releasedRecords (exec_op x tm) t \<noteq> None"
  proof
    assume "releasedRecords (exec_op x tm) t = None"
    from run_ops_absent [OF this nxs] Cons.prems(3) show False by simp
  qed
  from exec_op_keeps_released [OF Cons.prems(1) nx this]
  have "isReleased (exec_op x tm) t" .
  from Cons.IH [OF this nxs] Cons.prems(3) show ?case by simp
qed

lemma release_moves_unreleased:
  "records tm t = Some r \<Longrightarrow> \<not> 0 <s refs r - 1 \<Longrightarrow>
   records (release tm t) t = None \<and> releasedRecords (release tm t) t \<noteq> None \<and>
   \<not> isReleased (release tm t) t"
  by (simp add: release_def Let_def isReleased_def TimeRecord_isReleased_def)

lemma release_then_newTimeRecord:
  "records tm t = Some r \<Longrightarrow> \<not> 0 <s refs r - 1 \<Longrightarrow> refs r - 1 \<noteq> - 1 \<Longrightarrow>
   0 <s lastUnref (timeRecord tm) \<Longrightarrow> lastUnref (timeRecord tm) <s UnixNano now \<Longrightarrow>
   isReleased (newTimeRecord (release tm t) now) t"
  by (simp add: release_def Let_def isReleased_def TimeRecord_isReleased_def newTimeRecord_def)

text \<open>
  Claim C5, as the code has it. \<^verbatim>\<open>isReleased(t)\<close> is false in every state reached from a
  fresh time-mark by \<^verbatim>\<open>add\<close>, \<^verbatim>\<open>release\<close>, \<^verbatim>\<open>isReleased\<close> and \<^verbatim>\<open>startExpirer\<close>, and in
  every state in which \<open>t\<close> has no released record. When \<^verbatim>\<open>release(t)\<close> takes the count of
  \<open>t\<close> to zero it moves \<open>t\<close> to the released records, and \<^verbatim>\<open>isReleased(t)\<close> is still false
  there: the record carries the current stamp of the time-mark, and the test asks for a
  strictly older one. Once \<^verbatim>\<open>newTimeRecord\<close> has installed a later stamp,
  \<^verbatim>\<open>isReleased(t)\<close> is true, and it stays true along \<^verbatim>\<open>add\<close>, \<^verbatim>\<open>isReleased\<close>,
  \<^verbatim>\<open>startExpirer\<close> and the release of other time IDs for as long as \<open>t\<close> has a released
  record.
\<close>

theorem isReleased_lifecycle:
  assumes "records tm t = Some r"
    and "\<not> 0 <s refs r - 1"
    and "refs r - 1 \<noteq> - 1"
    and "0 <s lastUnref (timeRecord tm)"
    and "lastUnref (timeRecord tm) <s UnixNano now"
    and "Release t \<notin> set ops"
    and "releasedRecords (run_ops ops (newTimeRecord (release tm t) now)) t \<noteq> None"
    and "releasedRecords tm' t = None"
  shows "\<not> isReleased (run_ops ops' (newTimeMark d now')) t \<and>
         \<not> isReleased tm' t \<and>
         records (release tm t) t = None \<and>
         releasedRecords (release tm t) t \<noteq> None \<and>
         \<not> isReleased (release tm t) t \<and>
         isReleased (newTimeRecord (release tm t) now) t \<and>
         isReleased (run_ops ops (newTimeRecord (release tm t) now)) t"
proof -
  have a: "\<not> isReleased tm' t"
    using assms(8) by (simp add: isReleased_def)
  have b: "isReleased (newTimeRecord (release tm t) now) t"
    using assms(1-5) by (rule release_then_newTimeRecord)
  have c: "isReleased (run_ops ops (newTimeRecord (release tm t) now)) t"
    using b assms(6,7) by (rule run_ops_keeps_released)
  show ?thesis
    using fresh_never_released a release_moves_unreleased [OF assms(1,2)] b c by blast
qed

theorem isReleased_after_release_counterexample:
  "records (add (newTimeMark 1000000000 \<lparr> unixSec = 1600000000, nsec = 0 \<rparr>) 5) 5
     = Some \<lparr> refs = 1, lastUnref = 0 \<rparr> \<and>
   records (release (add (newTimeMark 1000000000 \<lparr> unixSec = 1600000000, nsec = 0 \<rparr>) 5) 5) 5
     = None \<and>
   releasedRecords
     (release (add (newTimeMark 1000000000 \<lparr> unixSec = 1600000000, nsec = 0 \<rparr>) 5) 5) 5
     = Some \<lparr> refs = 0, lastUnref = 1600000000000000000 \<rparr> \<and>
   \<not> isReleased
       (release (add (newTimeMark 1000000000 \<lparr> unixSec = 1600000000, nsec = 0 \<rparr>) 5) 5) 5"
  by (simp add: add_def release_def isReleased_def TimeRecord_isReleased_def newTimeMark_def
      UnixNano_def Let_def)

theorem isReleased_lifecycle_witness:
  "records (add (newTimeMark 1000000000 \<lparr> unixSec = 1600000000, nsec = 0 \<rparr>) 5) 5
     = Some \<lparr> refs = 1, lastUnref = 0 \<rparr> \<and>
   \<not> 0 <s refs \<lparr> refs = 1, lastUnref = 0 \<rparr> - 1 \<and>
   refs \<lparr> refs = 1, lastUnref = 0 \<rparr> - 1 \<noteq> - 1 \<and>
   0 <s lastUnref (timeRecord (add (newTimeMark 1000000000 \<lparr> unixSec = 1600000000, nsec = 0 \<rparr>) 5)) \<and>
   lastUnref (timeRecord (add (newTimeMark 1000000000 \<lparr> unixSec = 1600000000, nsec = 0 \<rparr>) 5))
     <s UnixNano \<lparr> unixSec = 1600000001, nsec = 250 \<rparr> \<and>
   Release 5 \<notin> set [Add 6, Release 6, IsReleased 5,
                      StartExpirer (fixed_clock \<lparr> unixSec = 1600000001, nsec = 250 \<rparr>), Add 5] \<and>
   releasedRecords \<lparr> durations = 0, timeRecord = \<lparr> refs = 1, lastUnref = 0 \<rparr>,
                     records = Map.empty, releasedRecords = Map.empty \<rparr> 5 = None \<and>
   \<not> isReleased (release (add (newTimeMark 1000000000 \<lparr> unixSec = 1600000000, nsec = 0 \<rparr>) 5) 5) 5 \<and>
   isReleased
     (newTimeRecord (release (add (newTimeMark 1000000000 \<lparr> unixSec = 1600000000, nsec = 0 \<rparr>) 5) 5)
        \<lparr> unixSec = 1600000001, nsec = 250 \<rparr>) 5 \<and>
   isReleased
     (run_ops [Add 6, Release 6, IsReleased 5,
               StartExpirer (fixed_clock \<lparr> unixSec = 1600000001, nsec = 250 \<rparr>), Add 5]
        (newTimeRecord (release (add (newTimeMark 1000000000 \<lparr> unixSec = 1600000000, nsec = 0 \<rparr>) 5) 5)
           \<lparr> unixSec = 1600000001, nsec = 250 \<rparr>)) 5"
proof -
  let ?tm = "add (newTimeMark 1000000000 \<lparr> unixSec = 1600000000, nsec = 0 \<rparr>) 5"
  let ?now = "\<lparr> unixSec = 1600000001, nsec = 250 \<rparr>"
  let ?r = "\<lparr> refs = 1, lastUnref = 0 \<rparr>"
  let ?ops = "[Add 6, Release 6, IsReleased 5, StartExpirer (fixed_clock ?now), Add 5]"
  let ?tm' = "\<lparr> durations = 0, timeRecord = ?r, records = Map.empty,
                releasedRecords = Map.empty \<rparr>"
  have h1: "records ?tm 5 = Some ?r"
    by (simp add: add_def)
  have h2: "\<not> 0 <s refs ?r - 1" and h3: "refs ?r - 1 \<noteq> - 1"
    by simp_all
  have h4: "0 <s lastUnref (timeRecord ?tm)"
    and h5: "lastUnref (timeRecord ?tm) <s UnixNano ?now"
    by (simp_all add: add_def newTimeMark_def UnixNano_def word_sless_alt)
  have h6: "Release 5 \<notin> set ?ops"
    by simp
  have h7: "releasedRecords (run_ops ?ops (newTimeRecord (release ?tm 5) ?now)) 5 \<noteq> None"
    by (simp add: add_def newTimeMark_def UnixNano_def word_sless_alt word_sle_eq
        release_def newTimeRecord_def startExpirer_def TimeRecord_isExpired_def
        Nanosecond_def Let_def fixed_clock_def)
  have h8: "releasedRecords ?tm' 5 = None"
    by simp
  from isReleased_lifecycle [OF h1 h2 h3 h4 h5 h6 h7 h8] h1 h2 h3 h4 h5 h6 h8
  show ?thesis by simp
qed

subsection \<open>The segmented log file\<close>

text \<open>
  Claim C6, as the code has it. For every state of the segmented file and every size other
  than 0: when \<^verbatim>\<open>targetSize > file.size + size\<close> or segment 1 is smaller than \<open>size\<close>, and
  the operating system's \<^verbatim>\<open>Truncate\<close> to \<open>file.size + size\<close> succeeds, \<^verbatim>\<open>allocate(size)\<close>
  extends the file by \<open>size\<close> bytes and returns the old end of the file (the segments stay
  as they are); otherwise, when neither condition holds, it returns the offset of segment
  1, moves that offset forward by \<open>size\<close> and takes \<open>size\<close> off the segment's size, which
  does not wrap around; the file's size and the other two segments stay as they are.
\<close>

theorem File_allocate_spec:
  assumes "sz \<noteq> 0"
  shows "(fsize f + ucast sz <s targetSize f \<or> currSize (segments f) < sz \<longrightarrow>
            truncate_ok (fsize f + ucast sz) \<longrightarrow>
            File_allocate truncate_ok f sz = Inr (fsize f, f\<lparr> fsize := fsize f + ucast sz \<rparr>)) \<and>
         (\<not> (fsize f + ucast sz <s targetSize f \<or> currSize (segments f) < sz) \<longrightarrow>
            (\<exists>f'. File_allocate truncate_ok f sz = Inr (seg_offset (sg1 (segments f)), f') \<and>
                  seg_offset (sg1 (segments f')) = seg_offset (sg1 (segments f)) + ucast sz \<and>
                  seg_size (sg1 (segments f')) = seg_size (sg1 (segments f)) - sz \<and>
                  unat (seg_size (sg1 (segments f'))) = unat (seg_size (sg1 (segments f))) - unat sz \<and>
                  unat sz \<le> unat (seg_size (sg1 (segments f))) \<and>
                  sg0 (segments f') = sg0 (segments f) \<and>
                  sg2 (segments f') = sg2 (segments f) \<and>
                  fsize f' = fsize f \<and> targetSize f' = targetSize f))"
proof (intro conjI impI)
  assume "fsize f + ucast sz <s targetSize f \<or> currSize (segments f) < sz"
    and "truncate_ok (fsize f + ucast sz)"
  with assms
  show "File_allocate truncate_ok f sz = Inr (fsize f, f\<lparr> fsize := fsize f + ucast sz \<rparr>)"
    by (simp add: File_allocate_def Let_def)
next
  assume carve: "\<not> (fsize f + ucast sz <s targetSize f \<or> currSize (segments f) < sz)"
  then have le: "sz \<le> seg_size (sg1 (segments f))"
    by (simp add: currSize_def not_less)
  then have ule: "unat sz \<le> unat (seg_size (sg1 (segments f)))"
    by (simp add: word_le_nat_alt)
  have sub: "unat (seg_size (sg1 (segments f)) - sz) = unat (seg_size (sg1 (segments f))) - unat sz"
    using le by (rule unat_sub)
  let ?f' = "f\<lparr> segments := snd (Segments_allocate (segments f) sz) \<rparr>"
  have "File_allocate truncate_ok f sz = Inr (seg_offset (sg1 (segments f)), ?f')"
    using assms carve by (simp add: File_allocate_def Segments_allocate_def)
  moreover have "seg_offset (sg1 (segments ?f')) = seg_offset (sg1 (segments f)) + ucast sz"
    and "seg_size (sg1 (segments ?f')) = seg_size (sg1 (segments f)) - sz"
    and "sg0 (segments ?f') = sg0 (segments f)"
    and "sg2 (segments ?f') = sg2 (segments f)"
    and "fsize ?f' = fsize f" and "targetSize ?f' = targetSize f"
    by (simp_all add: Segments_allocate_def)
  ultimately
  show "\<exists>f'. File_allocate truncate_ok f sz = Inr (seg_offset (sg1 (segments f)), f') \<and>
             seg_offset (sg1 (segments f')) = seg_offset (sg1 (segments f)) + ucast sz \<and>
             seg_size (sg1 (segments f')) = seg_size (sg1 (segments f)) - sz \<and>
             unat (seg_size (sg1 (segments f'))) = unat (seg_size (sg1 (segments f))) - unat sz \<and>
             unat sz \<le> unat (seg_size (sg1 (segments f))) \<and>
             sg0 (segments f') = sg0 (segments f) \<and>
             sg2 (segments f') = sg2 (segments f) \<and>
             fsize f' = fsize f \<and> targetSize f' = targetSize f"
    using sub ule by (intro exI [of _ ?f']) simp
qed

text \<open>
  Without the success of \<^verbatim>\<open>Truncate\<close> the file is not extended: the size is not 0 and the
  file is below its target size, but \<^verbatim>\<open>allocate\<close> returns the error of \<^verbatim>\<open>Truncate\<close> and no
  offset.
\<close>

theorem File_allocate_counterexample:
  "(40 :: u32) \<noteq> 0 \<and>
   fsize short_file + ucast (40 :: u32) <s targetSize short_file \<and>
   File_allocate never short_file 40 = Inl TruncateError \<and>
   File_allocate never short_file 40 \<noteq> Inr (fsize short_file, short_file\<lparr> fsize := 240 \<rparr>)"
  by (simp add: File_allocate_def short_file_def never_def word_sless_alt Let_def)

theorem File_allocate_spec_witness:
  "(40 :: u32) \<noteq> 0 \<and>
   File_allocate (\<lambda>_. True)
     \<lparr> segments = \<lparr> sg0 = \<lparr> seg_offset = 47, seg_size = 0 \<rparr>,
                    sg1 = \<lparr> seg_offset = 47, seg_size = 100 \<rparr>,
                    sg2 = \<lparr> seg_offset = 0, seg_size = 0 \<rparr> \<rparr>,
       fsize = 200, targetSize = 256 \<rparr> 40
     = Inr (200,
         \<lparr> segments = \<lparr> sg0 = \<lparr> seg_offset = 47, seg_size = 0 \<rparr>,
                        sg1 = \<lparr> seg_offset = 47, seg_size = 100 \<rparr>,
                        sg2 = \<lparr> seg_offset = 0, seg_size = 0 \<rparr> \<rparr>,
           fsize = 240, targetSize = 256 \<rparr>) \<and>
   (\<exists>f'. File_allocate (\<lambda>_. True)
            \<lparr> segments = \<lparr> sg0 = \<lparr> seg_offset = 47, seg_size = 0 \<rparr>,
                           sg1 = \<lparr> seg_offset = 47, seg_size = 100 \<rparr>,
                           sg2 = \<lparr> seg_offset = 0, seg_size = 0 \<rparr> \<rparr>,
              fsize = 250, targetSize = 256 \<rparr> 40 = Inr (47, f') \<and>
          seg_offset (sg1 (segments f')) = 87 \<and> seg_size (sg1 (segments f')) = 60)"
proof -
  let ?sg = "\<lparr> sg0 = \<lparr> seg_offset = 47, seg_size = 0 \<rparr>,
               sg1 = \<lparr> seg_offset = 47, seg_size = 100 \<rparr>,
               sg2 = \<lparr> seg_offset = 0, seg_size = 0 \<rparr> \<rparr>"
  let ?f1 = "\<lparr> segments = ?sg, fsize = 200, targetSize = 256 \<rparr>"
  let ?f2 = "\<lparr> segments = ?sg, fsize = 250, targetSize = 256 \<rparr>"
  have nz: "(40 :: u32) \<noteq> 0"
    by simp
  have c1: "fsize ?f1 + ucast (40 :: u32) <s targetSize ?f1 \<or> currSize (segments ?f1) < 40"
    by (simp add: word_sless_alt)
  have c2: "\<not> (fsize ?f2 + ucast (40 :: u32) <s targetSize ?f2 \<or> currSize (segments ?f2) < 40)"
    by (simp add: word_sless_alt currSize_def)
  from File_allocate_spec [OF nz, of ?f1 "\<lambda>_. True"] c1
  have r1: "File_allocate (\<lambda>_. True) ?f1 40 = Inr (fsize ?f1, ?f1\<lparr> fsize := fsize ?f1 + ucast (40 :: u32) \<rparr>)"
    by blast
  from File_allocate_spec [OF nz, of ?f2 "\<lambda>_. True"] c2
  obtain f' where r2: "File_allocate (\<lambda>_. True) ?f2 40 = Inr (seg_offset (sg1 (segments ?f2)), f')"
    and o2: "seg_offset (sg1 (segments f')) = seg_offset (sg1 (segments ?f2)) + ucast (40 :: u32)"
    and s2: "seg_size (sg1 (segments f')) = seg_size (sg1 (segments ?f2)) - 40"
    by blast
  from r2 o2 s2
  have "File_allocate (\<lambda>_. True) ?f2 40 = Inr (47, f') \<and>
        seg_offset (sg1 (segments f')) = 87 \<and> seg_size (sg1 (segments f')) = 60"
    by simp
  then have e2: "\<exists>f'. File_allocate (\<lambda>_. True) ?f2 40 = Inr (47, f') \<and>
        seg_offset (sg1 (segments f')) = 87 \<and> seg_size (sg1 (segments f')) = 60"
    by blast
  from r1 have "File_allocate (\<lambda>_. True) ?f1 40 = Inr (200, ?f1\<lparr> fsize := 240 \<rparr>)"
    by simp
  then show ?thesis using nz e2 by simp
qed

subsection \<open>Reading an entry\<close>

lemma find_no_match: "\<forall>s\<in>set xs. \<not> P s \<Longrightarrow> find P xs = None"
  by (simp add: find_None_iff)

text \<open>
  Claim C4, as the code has it. When the memdb probe misses (no error, \<^verbatim>\<open>nil\<close> data), the
  index block of the sequence is read without error and none of its 255 slots carries the
  sequence, \<^verbatim>\<open>readEntry\<close> returns the zero slot and no error.
\<close>

theorem readEntry_miss:
  assumes "mem_Get db (scast (startBlockIndex sq)) (cacheID db XOR sq) = Inr None"
    and "block_read db (blockOffset db (startBlockIndex sq)) = Inr entries"
    and "\<forall>s\<in>set (take entriesPerIndexBlock entries). slot_seq s \<noteq> sq"
  shows "readEntry db th sq = Inr zero_slot"
  using assms by (simp add: readEntry_def Let_def find_no_match)

theorem readEntry_miss_counterexample:
  "mem_Get empty_db (scast (startBlockIndex 7)) (cacheID empty_db XOR 7) = Inr None \<and>
   block_read empty_db (blockOffset empty_db (startBlockIndex 7)) = Inr (replicate 255 zero_slot) \<and>
   slot_seq zero_slot \<noteq> 7 \<and>
   readEntry empty_db 0 7 = Inr zero_slot \<and>
   readEntry empty_db 0 7 \<noteq> Inl (Error errMsgIdDoesNotExist)"
proof -
  have "find (\<lambda>s. slot_seq s = 7) (take entriesPerIndexBlock (replicate 255 zero_slot)) = None"
    by (rule find_no_match) (simp add: zero_slot_def)
  then have "readEntry empty_db 0 7 = Inr zero_slot"
    by (simp add: readEntry_def empty_db_def no_data_def zero_block_def Let_def)
  then show ?thesis
    by (simp add: empty_db_def no_data_def zero_block_def zero_slot_def)
qed

theorem readEntry_miss_witness:
  "mem_Get empty_db (scast (startBlockIndex 7)) (cacheID empty_db XOR 7) = Inr None \<and>
   block_read empty_db (blockOffset empty_db (startBlockIndex 7)) = Inr (replicate 255 zero_slot) \<and>
   readEntry empty_db 9 7 = Inr zero_slot"
proof -
  have h1: "mem_Get empty_db (scast (startBlockIndex 7)) (cacheID empty_db XOR 7) = Inr None"
    by (simp add: empty_db_def no_data_def)
  have h2: "block_read empty_db (blockOffset empty_db (startBlockIndex 7))
              = Inr (replicate 255 zero_slot)"
    by (simp add: empty_db_def zero_block_def)
  have h3: "\<forall>s\<in>set (take entriesPerIndexBlock (replicate 255 zero_slot)). slot_seq s \<noteq> 7"
    by (auto simp: zero_slot_def dest: in_set_takeD)
  from readEntry_miss [OF h1 h2 h3, of 9] h1 h2 show ?thesis by simp
qed

subsection \<open>Setting an entry\<close>

lemma setEntry_parse_ID: "setEntry_parse env e = Inr (e1, raw) \<Longrightarrow> ID e1 = ID e"
  by (auto simp: setEntry_parse_def Let_def split: if_splits sum.splits prod.splits option.splits)

lemma word_succ_zero: "(w + 1 = 0) = (w = - 1)" for w :: u64
  using eq_neg_iff_add_eq_0 [of w 1] by blast

lemma setEntry_panic_iff:
  "setEntry_parse env e = Inr (e1, raw) \<Longrightarrow>
   (setEntry env db e encr = Inl Panic) = (fst (setEntry_seq env db e1) = 0)"
  by (cases "setEntry_seq env db e1") (simp add: setEntry_def Let_def split: sum.splits)

lemma setEntry_seq_generated:
  "ID e1 = None \<Longrightarrow>
   fst (setEntry_seq env db e1) =
     (case lease_getSlot env (lease db) (topicHash e1) of
        Some (s, l') \<Rightarrow> s
      | None \<Rightarrow> sequence db + 1)"
  by (simp add: setEntry_seq_def nextSeq_def split: option.splits)

lemma setEntry_Inr_seq: "setEntry env db e encr = Inr (e', db') \<Longrightarrow> seq e' \<noteq> 0"
  by (auto simp: setEntry_def Let_def split: sum.splits prod.splits if_splits)

text \<open>
  Claim C7, as the code has it. An entry for which \<^verbatim>\<open>setEntry\<close> completes without error
  has a sequence other than 0. When the database generates the sequence (the entry has no
  message ID), \<^verbatim>\<open>setEntry\<close> takes the panic branch exactly when the lease hands out
  sequence 0 or, the lease having no slot for the topic, the sequence counter stands at
  \<open>2^64 - 1\<close>, so that \<^verbatim>\<open>nextSeq\<close> wraps around to 0.
\<close>

theorem setEntry_sequence:
  "(setEntry env db e encr = Inr (e', db') \<longrightarrow> seq e' \<noteq> 0) \<and>
   (setEntry_parse env e = Inr (e1, raw) \<longrightarrow> ID e = None \<longrightarrow>
      (setEntry env db e encr = Inl Panic) =
      (case lease_getSlot env (lease db) (topicHash e1) of
         Some (s, l') \<Rightarrow> s = 0
       | None \<Rightarrow> sequence db = - 1))"
proof (intro conjI impI)
  assume "setEntry env db e encr = Inr (e', db')"
  then show "seq e' \<noteq> 0"
    by (rule setEntry_Inr_seq)
next
  assume p: "setEntry_parse env e = Inr (e1, raw)" and i: "ID e = None"
  from setEntry_parse_ID [OF p] i have i1: "ID e1 = None"
    by simp
  show "(setEntry env db e encr = Inl Panic) =
        (case lease_getSlot env (lease db) (topicHash e1) of
           Some (s, l') \<Rightarrow> s = 0
         | None \<Rightarrow> sequence db = - 1)"
  proof (cases "lease_getSlot env (lease db) (topicHash e1)")
    case None
    show ?thesis
      unfolding setEntry_panic_iff [OF p] setEntry_seq_generated [OF i1] None
      by (simp only: option.case word_succ_zero)
  next
    case (Some a)
    show ?thesis
      unfolding setEntry_panic_iff [OF p] setEntry_seq_generated [OF i1] Some
      by (cases a) (simp only: option.case prod.case)
  qed
qed

theorem setEntry_sequence_counterexample:
  "ID (new_entry [97] [1]) = None \<and>
   lease_getSlot plain_env () 0 = None \<and>
   nextSeq \<lparr> sequence = 0xFFFFFFFFFFFFFFFF, lease = (), encryption = 0 \<rparr>
     = (0, \<lparr> sequence = 0, lease = (), encryption = 0 \<rparr>) \<and>
   setEntry plain_env \<lparr> sequence = 0xFFFFFFFFFFFFFFFF, lease = (), encryption = 0 \<rparr>
     (new_entry [97] [1]) False = Inl Panic"
  by (simp add: setEntry_def setEntry_parse_def setEntry_seq_def nextSeq_def plain_env_def
      new_entry_def parse_any_def no_slot_def no_offset_def Let_def)

theorem setEntry_sequence_witness:
  "setEntry plain_env \<lparr> sequence = 41, lease = (), encryption = 0 \<rparr> (new_entry [97] [1]) False
     = Inr (\<lparr> parsed = True, Contract = 1, Topic = [97], ExpiresAt = 0, ID = None,
              Payload = [1], topicHash = 0, topicSize = 1, seq = 42, expiresAt = 0,
              valueSize = 1, cacheEntry = [0, 42, 0, 97, 1] \<rparr>,
            \<lparr> sequence = 42, lease = (), encryption = 0 \<rparr>) \<and>
   setEntry_parse plain_env (new_entry [97] [1])
     = Inr (\<lparr> parsed = True, Contract = 1, Topic = [97], ExpiresAt = 0, ID = None,
              Payload = [1], topicHash = 0, topicSize = 1, seq = 0, expiresAt = 0,
              valueSize = 0, cacheEntry = [] \<rparr>, [97]) \<and>
   ID (new_entry [97] [1]) = None \<and>
   (42 :: u64) \<noteq> 0 \<and>
   setEntry plain_env \<lparr> sequence = 41, lease = (), encryption = 0 \<rparr> (new_entry [97] [1]) False
     \<noteq> Inl Panic"
proof -
  let ?db = "\<lparr> sequence = 41, lease = (), encryption = 0 \<rparr> :: unit DBSeq"
  let ?e1 = "\<lparr> parsed = True, Contract = 1, Topic = [97], ExpiresAt = 0, ID = None,
               Payload = [1], topicHash = 0, topicSize = 1, seq = 0, expiresAt = 0,
               valueSize = 0, cacheEntry = [] \<rparr>"
  let ?e' = "?e1\<lparr> seq := 42, valueSize := 1, cacheEntry := [0, 42, 0, 97, 1] \<rparr>"
  have p: "setEntry_parse plain_env (new_entry [97] [1]) = Inr (?e1, [97])"
    by (simp add: setEntry_parse_def plain_env_def new_entry_def parse_any_def no_offset_def
        hash_zero_def same_bytes_def Let_def)
  have r: "setEntry plain_env ?db (new_entry [97] [1]) False
             = Inr (?e', \<lparr> sequence = 42, lease = (), encryption = 0 \<rparr>)"
    by (simp add: setEntry_def setEntry_parse_def setEntry_seq_def nextSeq_def plain_env_def
        new_entry_def parse_any_def no_slot_def no_offset_def hash_zero_def same_bytes_def
        marshal_none_def pack_concat_def Let_def)
  have i: "ID (new_entry [97] [1]) = None"
    by (simp add: new_entry_def)
  have l: "lease_getSlot plain_env (lease ?db) (topicHash ?e1) = None"
    by (simp add: plain_env_def no_slot_def)
  from setEntry_sequence [of plain_env ?db "new_entry [97] [1]" False ?e'
      "\<lparr> sequence = 42, lease = (), encryption = 0 \<rparr>" ?e1 "[97]"] r p i l
  have "seq ?e' \<noteq> 0"
    and "setEntry plain_env ?db (new_entry [97] [1]) False \<noteq> Inl Panic"
    by simp_all
  with r p i show ?thesis by simp
qed

subsection \<open>The cache DB\<close>

lemma unat_len32: "unat (word_of_nat n :: u32) = n mod 2 ^ 32"
  by (simp add: unat_of_nat)

lemma writeAt_end:
  assumes "Table_writeAt t d (int (length B)) = Inr t'" and "tbuf t = B @ Z"
  shows "length d \<le> length Z \<and> tbuf t' = B @ d @ drop (length d) Z"
  using assms by (auto simp: Table_writeAt_def split: if_splits)


lemma readRaw_prefix:
  "Table_readRaw t off n = Inr d \<Longrightarrow> tbuf t' = tbuf t @ ys \<Longrightarrow> Table_readRaw t' off n = Inr d"
  by (auto simp: Table_readRaw_def go_slice_def split: if_splits)


lemma writeAt_keeps_prefix:
  assumes "Table_writeAt t d off = Inr t'" and "int (length B) \<le> off" and "tbuf t = B @ Z"
  shows "\<exists>Z'. tbuf t' = B @ Z'"
  using assms by (auto simp: Table_writeAt_def split: if_splits)










subsection \<open>Reading the recovered logs\<close>

lemma Read_logs_empty: "recoveredLogs (fst (snd (Read env f w r u))) = []"
  by (simp add: Read_def Let_def split: step.splits)

lemma Read_no_logs:
  "recoveredLogs w = [] \<Longrightarrow> Read env f w r u = (Ret None, w, r, u, [])"
  by (simp add: Read_def Let_def)

text \<open>
  Claim C10. \<^verbatim>\<open>Read\<close> always comes back (both loops terminate), and on every way out,
  whatever it returns, the WAL's \<^verbatim>\<open>recoveredLogs\<close> is empty. A second \<^verbatim>\<open>Read\<close> on that WAL,
  with any callback, never calls it: it returns \<^verbatim>\<open>nil\<close> and leaves the WAL, the reader and
  the callback's state as they are.
\<close>

theorem Read_truncates:
  "recoveredLogs (fst (snd (Read env f w r u))) = [] \<and>
   Read env' f' (fst (snd (Read env f w r u))) r' u'
     = (Ret None, fst (snd (Read env f w r u)), r', u', [])"
  using Read_logs_empty [of env f w r u] by (simp add: Read_no_logs)

theorem Read_truncates_witness:
  "Read all_ok reject one_group \<lparr> r_entryCount = 0, r_logData = [], r_offset = 0 \<rparr> 0
     = (Ret (Some (errUser 7)), one_group\<lparr> recoveredLogs := [] \<rparr>,
        \<lparr> r_entryCount = 1, r_logData = replicate 2 0, r_offset = 0 \<rparr>, 1, [5]) \<and>
   Read all_ok reject (one_group\<lparr> recoveredLogs := [] \<rparr>)
          \<lparr> r_entryCount = 0, r_logData = [], r_offset = 0 \<rparr> 0
     = (Ret None, one_group\<lparr> recoveredLogs := [] \<rparr>,
        \<lparr> r_entryCount = 0, r_logData = [], r_offset = 0 \<rparr>, 0, [])"
proof -
  let ?r = "\<lparr> r_entryCount = 0, r_logData = [], r_offset = 0 \<rparr>"
  have e: "Read all_ok reject one_group ?r 0
     = (Ret (Some (errUser 7)), one_group\<lparr> recoveredLogs := [] \<rparr>,
        \<lparr> r_entryCount = 1, r_logData = replicate 2 0, r_offset = 0 \<rparr>, 1, [5])"
    by (simp add: Read_def Let_def one_group_def all_ok_def reject_def always_def
        logStatusWritten_def logStatusReleased_def file_readAt_def scan_body_def skipped_def
        buffer_Slice_def go_slice_def word_sless_alt scan.simps read_loop.simps first_size_def)
  from Read_truncates [of all_ok reject one_group ?r 0 all_ok reject ?r 0] e
  show ?thesis by simp
qed

subsection \<open>Recovery from the log\<close>

lemma length_frame: "length (frame rec) = length rec + 4"
  by (simp add: frame_def length_le_bytes)

lemma sint_of_nat_i64: "p < 2 ^ 32 \<Longrightarrow> sint (word_of_nat p :: i64) = int p"
proof -
  assume p: "p < 2 ^ 32"
  then have "int p < int (2 ^ 32)"
    by (simp only: of_nat_less_iff)
  also have "int (2 ^ 32) = 2 ^ 32"
    by simp
  finally have "int p < 2 ^ 63"
    by simp
  moreover have "- (2 ^ 63) \<le> int p"
    by simp
  ultimately have "signed_take_bit 63 (int p) = int p"
    by (intro signed_take_bit_int_eq_self)
  then show ?thesis
    by (simp add: signed_of_nat)
qed

lemma Next_frame:
  assumes lt: "length pre + length (frame rec @ post) < 2 ^ 32"
    and ec: "ec \<noteq> 0"
  shows "Next \<lparr> r_entryCount = ec, r_logData = pre @ frame rec @ post,
                r_offset = word_of_nat (length pre) \<rparr>
         = (Ok (rec, True),
            \<lparr> r_entryCount = ec - 1, r_logData = pre @ frame rec @ post,
              r_offset = word_of_nat (length pre + length (frame rec)) \<rparr>)"
proof -
  define n where "n = (word_of_nat (length rec + 4) :: u32)"
  have lp: "length pre < 2 ^ 32" using lt by simp
  have so: "sint (word_of_nat (length pre) :: i64) = int (length pre)"
    using lp by (rule sint_of_nat_i64)
  have lr: "length rec + 4 < 2 ^ 32"
    using lt by (simp add: length_frame)
  have un: "unat n = length rec + 4"
    unfolding n_def unat_len32 using lr by simp
  have fr: "frame rec = le_bytes 4 n @ rec"
    by (simp add: frame_def n_def)
  have dl: "(le_word (go_slice (frame rec @ post) 0 4) :: u32) = n"
    by (simp add: fr go_slice_def length_le_bytes le_word_le_bytes_full)
  have rem: "length (frame rec @ post) < 2 ^ 32" using lt by simp
  have "unat (word_of_nat (length (frame rec @ post)) :: u32) = length (frame rec @ post)"
    unfolding unat_len32 using rem by simp
  then have nlt: "\<not> (word_of_nat (length (frame rec @ post)) :: u32) < n"
    by (simp add: word_less_nat_alt un length_frame)
  have "(ucast n :: i64) = word_of_nat (unat n)"
    by simp
  then have uc: "(ucast n :: i64) = word_of_nat (length rec + 4)"
    by (simp only: un)
  have sl: "go_slice (frame rec @ post) 4 (unat n) = rec"
    by (simp add: fr un go_slice_def length_le_bytes)
  have l4: "\<not> length (frame rec @ post) < 4"
    by (simp add: length_frame)
  have ln: "\<not> length (frame rec @ post) < unat n"
    by (simp add: length_frame un)
  show ?thesis
    unfolding Next_def Let_def
    using ec so dl nlt sl l4 ln un
    apply (simp add: length_frame)
    apply (simp add: uc)
    done
qed

lemma frames_Cons: "frames (x # xs) = frame (record_of x) @ frames xs"
  by (simp add: frames_def)

lemma frames_Nil: "frames [] = []"
  by (simp add: frames_def)

lemma length_record_of: "9 \<le> length (record_of x)"
  by (cases x) (simp_all add: length_le_bytes)

lemma record_of_fields:
  "record_of x ! 0 = (case x of PutOp k v \<Rightarrow> 0 | DelOp k t \<Rightarrow> 1) \<and>
   (le_word (go_slice (record_of x) 1 9) :: u64) = (case x of PutOp k v \<Rightarrow> k | DelOp k t \<Rightarrow> k) \<and>
   drop 9 (record_of x) = (case x of PutOp k v \<Rightarrow> v | DelOp k t \<Rightarrow> le_bytes 8 t)"
  by (cases x) (simp_all add: go_slice_def length_le_bytes le_word_le_bytes_full)

lemma recover_step:
  assumes "9 \<le> length rec"
  shows "(case (Ok (rec, True), r1) of
        (Err e, r1) \<Rightarrow> (CbRet False (Some e), r1, log)
      | (GoPanic, r1) \<Rightarrow> (CbPanic, r1, log)
      | (Ok (logData, ok), r1) \<Rightarrow>
          if \<not> ok then (CbRet False None, r1, log)
          else if length logData < 9 then (CbPanic, r1, log)
          else
            (let dBit = logData ! 0;
                 key = (le_word (go_slice logData 1 9) :: u64);
                 val = drop 9 logData
             in if dBit = 1 then recover_records n r1 (log(key := None))
                else recover_records n r1 (log(key \<mapsto> val))))
     = (if rec ! 0 = 1 then recover_records n r1 (log(le_word (go_slice rec 1 9) := None))
        else recover_records n r1 (log(le_word (go_slice rec 1 9) \<mapsto> drop 9 rec)))"
  using assms by (simp add: Let_def)

lemma recover_records_frames:
  assumes "length pre + length (frames ops @ post) < 2 ^ 32" and "length ops < 2 ^ 32"
  shows "recover_records (length ops)
           \<lparr> r_entryCount = word_of_nat (length ops), r_logData = pre @ frames ops @ post,
             r_offset = word_of_nat (length pre) \<rparr> log
         = (CbRet False None,
            \<lparr> r_entryCount = 0, r_logData = pre @ frames ops @ post,
              r_offset = word_of_nat (length pre + length (frames ops)) \<rparr>,
            spec_run ops log)"
  using assms
proof (induction ops arbitrary: pre log)
  case Nil
  show ?case by (simp add: frames_Nil spec_run_def)
next
  case (Cons x xs)
  let ?rec = "record_of x"
  let ?ec = "word_of_nat (length (x # xs)) :: u32"
  have lt: "length pre + length (frame ?rec @ frames xs @ post) < 2 ^ 32"
    using Cons.prems(1) by (simp add: frames_Cons)
  have "unat ?ec = length (x # xs)"
    unfolding unat_len32 using Cons.prems(2) by simp
  then have ec: "?ec \<noteq> 0"
    by auto
  have ec1: "?ec - 1 = word_of_nat (length xs)"
    by simp
  have nx: "Next \<lparr> r_entryCount = ?ec, r_logData = pre @ frame ?rec @ frames xs @ post,
                  r_offset = word_of_nat (length pre) \<rparr>
         = (Ok (?rec, True),
            \<lparr> r_entryCount = word_of_nat (length xs),
              r_logData = (pre @ frame ?rec) @ frames xs @ post,
              r_offset = word_of_nat (length (pre @ frame ?rec)) \<rparr>)"
    using Next_frame [OF lt ec] by (simp only: ec1 append_assoc length_append)
  have ih: "recover_records (length xs)
           \<lparr> r_entryCount = word_of_nat (length xs),
             r_logData = (pre @ frame ?rec) @ frames xs @ post,
             r_offset = word_of_nat (length (pre @ frame ?rec)) \<rparr> log'
         = (CbRet False None,
            \<lparr> r_entryCount = 0, r_logData = (pre @ frame ?rec) @ frames xs @ post,
              r_offset = word_of_nat (length (pre @ frame ?rec) + length (frames xs)) \<rparr>,
            spec_run xs log')" for log'
    using Cons.prems by (intro Cons.IH) (simp_all add: frames_Cons)
  have "recover_records (length (x # xs))
           \<lparr> r_entryCount = ?ec, r_logData = pre @ frames (x # xs) @ post,
             r_offset = word_of_nat (length pre) \<rparr> log
        = recover_records (Suc (length xs))
           \<lparr> r_entryCount = ?ec, r_logData = pre @ frame ?rec @ frames xs @ post,
             r_offset = word_of_nat (length pre) \<rparr> log"
    by (simp only: frames_Cons length_Cons append_assoc)
  also have "\<dots> = (if ?rec ! 0 = 1
           then recover_records (length xs)
                  \<lparr> r_entryCount = word_of_nat (length xs),
                    r_logData = (pre @ frame ?rec) @ frames xs @ post,
                    r_offset = word_of_nat (length (pre @ frame ?rec)) \<rparr>
                  (log(le_word (go_slice ?rec 1 9) := None))
           else recover_records (length xs)
                  \<lparr> r_entryCount = word_of_nat (length xs),
                    r_logData = (pre @ frame ?rec) @ frames xs @ post,
                    r_offset = word_of_nat (length (pre @ frame ?rec)) \<rparr>
                  (log(le_word (go_slice ?rec 1 9) \<mapsto> drop 9 ?rec)))"
    apply (subst recover_records.simps(2))
    apply (subst nx)
    apply (rule recover_step [OF length_record_of])
    done
  also have "\<dots> = (CbRet False None,
            \<lparr> r_entryCount = 0, r_logData = (pre @ frame ?rec) @ frames xs @ post,
              r_offset = word_of_nat (length (pre @ frame ?rec) + length (frames xs)) \<rparr>,
            spec_run (x # xs) log)"
    unfolding ih using record_of_fields [of x]
    by (cases x) (simp_all add: spec_run_def)
  finally show ?case
    by (simp add: frames_Cons add.assoc)
qed

lemma recover_callback_frames:
  assumes "length ops < 2 ^ 32" and "length (frames ops @ post) < 2 ^ 32"
  shows "recover_callback t
           \<lparr> r_entryCount = word_of_nat (length ops), r_logData = frames ops @ post,
             r_offset = 0 \<rparr> log
         = (CbRet False None,
            \<lparr> r_entryCount = 0, r_logData = frames ops @ post,
              r_offset = word_of_nat (length (frames ops)) \<rparr>,
            spec_run ops log)"
proof -
  from assms(2) have f: "length [] + length (frames ops @ post) < 2 ^ 32"
    by simp
  have "unat (word_of_nat (length ops) :: u32) = length ops"
    unfolding unat_len32 using assms(1) by simp
  then show ?thesis
    using recover_records_frames [OF f assms(1), of log]
    by (simp add: recover_callback_def)
qed

lemma recover_callback_group:
  assumes "group_ok ops"
  shows "recover_callback t (group_reader ops) log
         = (CbRet False None,
            \<lparr> r_entryCount = 0, r_logData = frames ops,
              r_offset = word_of_nat (length (frames ops)) \<rparr>,
            spec_run ops log)"
  using assms recover_callback_frames [of ops "[]" t log]
  by (simp add: group_ok_def group_reader_def)

lemma spec_run_append: "spec_run (xs @ ys) m = spec_run ys (spec_run xs m)"
  by (simp add: spec_run_def)

lemma replay_groups:
  "\<forall>g\<in>set gs. group_ok g \<Longrightarrow>
   replay (map group_reader gs) log = (CbRet False None, spec_run (concat gs) log)"
proof (induction gs arbitrary: log)
  case Nil
  show ?case by (simp add: spec_run_def)
next
  case (Cons g gs)
  then have g: "group_ok g" and gs: "\<forall>g\<in>set gs. group_ok g"
    by simp_all
  show ?case
    by (simp add: recover_callback_group [OF g] Cons.IH [OF gs] spec_run_append)
qed

lemma Block_put_ok_D:
  assumes "Block_put b ikey data = (None, b')"
  shows "unat (word_of_nat (length data + 8 + 1 + 4) :: u32) = length data + 13
    \<and> tbuf (b_data b') = tbuf (b_data b) @ le_bytes 4 (word_of_nat (length data + 8 + 1 + 4) :: u32)
         @ (fst ikey # le_bytes 8 (snd ikey)) @ data
    \<and> b_records b' = (b_records b)(ikey \<mapsto> int (length (tbuf (b_data b))))"
proof -
  define n where "n = (word_of_nat (length data + 8 + 1 + 4) :: u32)"
  define N where "N = unat n"
  define H where "H = le_bytes 4 n"
  define K where "K = fst ikey # le_bytes 8 (snd ikey)"
  let ?B = "tbuf (b_data b)"
  have lH: "length H = 4" by (simp add: H_def length_le_bytes)
  have lK: "length K = 9" by (simp add: K_def length_le_bytes)
  from assms obtain off t1 t2 t3 t4 where
    a: "Table_allocate (b_data b) N = Inr (off, t1)"
    and w1: "Table_writeAt t1 H off = Inr t2"
    and w2: "Table_writeAt t2 K (off + 4) = Inr t3"
    and w3: "Table_writeAt t3 data (off + 8 + 1 + 4) = Inr t4"
    and rc: "b_records b' = (b_records b)(ikey \<mapsto> off)"
    and dt: "b_data b' = t4"
    unfolding Block_put_def Let_def n_def [symmetric] N_def [symmetric] H_def [symmetric]
      K_def [symmetric]
    by (auto split: sum.splits prod.splits)
  from a have off: "off = int (length ?B)" and t1: "tbuf t1 = ?B @ replicate N 0"
    by (auto simp: Table_allocate_def split: if_splits)
  from writeAt_end [OF w1 [unfolded off] t1] lH
  have n4: "4 \<le> N" and t2: "tbuf t2 = (?B @ H) @ replicate (N - 4) 0"
    by simp_all
  have off4: "off + 4 = int (length (?B @ H))"
    using off lH by simp
  from writeAt_end [OF w2 [unfolded off4] t2] lK
  have n13: "9 \<le> N - 4" and t3: "tbuf t3 = (?B @ H @ K) @ replicate (N - 13) 0"
    by simp_all
  have off13: "off + 8 + 1 + 4 = int (length (?B @ H @ K))"
    using off lH lK by simp
  from writeAt_end [OF w3 [unfolded off13] t3]
  have len: "length data \<le> N - 13"
    and t4: "tbuf t4 = (?B @ H @ K) @ data @ drop (length data) (replicate (N - 13) 0)"
    by simp_all
  have "N = (length data + 8 + 1 + 4) mod 2 ^ 32"
    unfolding N_def n_def by (rule unat_len32)
  then have "N \<le> length data + 13"
    by simp
  with len n4 n13 have N: "N = length data + 13" by simp
  from t4 N have "tbuf t4 = ?B @ H @ K @ data" by simp
  then show ?thesis
    using N rc dt off unfolding N_def H_def n_def K_def by simp
qed

lemma Block_get_after_put:
  assumes "Block_put b (iKey False k) v = (None, b')"
  shows "Block_get b' k = Inr v"
proof -
  define n where "n = (word_of_nat (length v + 8 + 1 + 4) :: u32)"
  define K where "K = fst (iKey False k) # le_bytes 8 (snd (iKey False k))"
  let ?B = "tbuf (b_data b)"
  have lK: "length K = 9" by (simp add: K_def length_le_bytes)
  from Block_put_ok_D [OF assms] have N: "unat n = length v + 13"
    and bb: "tbuf (b_data b') = ?B @ le_bytes 4 n @ K @ v"
    and c: "b_records b' (iKey False k) = Some (int (length ?B))"
    by (simp_all add: n_def K_def)
  have r1: "Table_readRaw (b_data b') (int (length ?B)) 4 = Inr (le_bytes 4 n)"
    by (simp add: Table_readRaw_def bb go_slice_def length_le_bytes)
  have w: "(le_word (le_bytes 4 n) :: u32) = n"
    by (simp add: le_word_le_bytes_full)
  have r2: "Table_readRaw (b_data b') (int (length ?B)) (length v + 13) = Inr (le_bytes 4 n @ K @ v)"
    by (simp add: Table_readRaw_def bb go_slice_def length_le_bytes lK)
  show ?thesis
    by (simp add: Block_get_def c r1 w N r2 Let_def length_le_bytes lK)
qed

lemma Block_get_extend:
  assumes "Block_get b k = Inr v"
    and "b_records b' (iKey False k) = b_records b (iKey False k)"
    and "tbuf (b_data b') = tbuf (b_data b) @ ys"
  shows "Block_get b' k = Inr v"
proof -
  from assms(1) obtain off scratch data where
    c: "b_records b (iKey False k) = Some off"
    and r1: "Table_readRaw (b_data b) off 4 = Inr scratch"
    and r2: "Table_readRaw (b_data b) off (unat (le_word (take 4 scratch) :: u32)) = Inr data"
    and l: "\<not> length data < 8 + 1 + 4" and v: "v = drop (8 + 1 + 4) data"
    by (auto simp: Block_get_def Let_def split: option.splits sum.splits if_splits)
  from readRaw_prefix [OF r1 assms(3)] readRaw_prefix [OF r2 assms(3)] c assms(2) l v
  show ?thesis by (simp add: Block_get_def Let_def)
qed

lemma Block_put_extends:
  "\<exists>ys. tbuf (b_data (snd (Block_put b ikey d))) = tbuf (b_data b) @ ys"
proof -
  define n where "n = (word_of_nat (length d + 8 + 1 + 4) :: u32)"
  define K where "K = fst ikey # le_bytes 8 (snd ikey)"
  let ?B = "tbuf (b_data b)"
  show ?thesis
  proof (cases "Table_allocate (b_data b) (unat n)")
    case (Inl e)
    then show ?thesis
      unfolding Block_put_def Let_def n_def [symmetric] by simp
  next
    case (Inr a)
    obtain off t1 where a: "a = (off, t1)" by (cases a)
    from Inr a have off: "off = int (length ?B)" and t1: "tbuf t1 = ?B @ replicate (unat n) 0"
      by (auto simp: Table_allocate_def split: if_splits)
    show ?thesis
    proof (cases "Table_writeAt t1 (le_bytes 4 n) off")
      case (Inl e)
      with Inr a t1 show ?thesis
        unfolding Block_put_def Let_def n_def [symmetric] by simp
    next
      case w1: (Inr t2)
      from writeAt_keeps_prefix [OF w1 _ t1] off obtain Z2 where t2: "tbuf t2 = ?B @ Z2"
        by auto
      show ?thesis
      proof (cases "Table_writeAt t2 K (off + 4)")
        case (Inl e)
        with Inr a w1 t2 show ?thesis
          unfolding Block_put_def Let_def n_def [symmetric] K_def [symmetric] by simp
      next
        case w2: (Inr t3)
        from writeAt_keeps_prefix [OF w2 _ t2] off obtain Z3 where t3: "tbuf t3 = ?B @ Z3"
          by auto
        show ?thesis
        proof (cases "Table_writeAt t3 d (off + 8 + 1 + 4)")
          case (Inl e)
          with Inr a w1 w2 t3 show ?thesis
            unfolding Block_put_def Let_def n_def [symmetric] K_def [symmetric] by simp
        next
          case w3: (Inr t4)
          from writeAt_keeps_prefix [OF w3 _ t3] off obtain Z4 where t4: "tbuf t4 = ?B @ Z4"
            by auto
          with Inr a w1 w2 w3 show ?thesis
            unfolding Block_put_def Let_def n_def [symmetric] K_def [symmetric] by simp
        qed
      qed
    qed
  qed
qed

lemma Block_put_records_other:
  "ikey' \<noteq> ikey \<Longrightarrow> b_records (snd (Block_put b ikey d)) ikey' = b_records b ikey'"
  by (auto simp: Block_put_def Let_def split: sum.splits prod.splits)

lemma MemDB_Get_current:
  "MemDB_Get db k = Inr v \<Longrightarrow> Block_get (current_block db) k = Inr v"
  by (auto simp: MemDB_Get_def current_block_def split: option.splits)

lemma MemDB_Put_D:
  assumes "MemDB_Put db k v = (err, db')"
  shows "m_timeID db' = m_timeID db \<and> m_cap db' = m_cap db \<and>
         m_blockCache db' (m_timeID db) = Some (snd (Block_put (current_block db) (iKey False k) v)) \<and>
         fst (Block_put (current_block db) (iKey False k) v) = err"
  using assms
  by (cases "Block_put (current_block db) (iKey False k) v")
     (auto simp: MemDB_Put_def split: option.splits)

lemma MemDB_Put_current:
  assumes "MemDB_Put db k v = (err, db')"
  shows "current_block db' = snd (Block_put (current_block db) (iKey False k) v)"
  using MemDB_Put_D [OF assms] by (simp add: current_block_def)

lemma MemDB_Get_via_current:
  "m_blockCache db (m_timeID db) \<noteq> None \<Longrightarrow> MemDB_Get db k = Block_get (current_block db) k"
  by (auto simp: MemDB_Get_def current_block_def)

lemma MemDB_Get_after_Put:
  assumes "MemDB_Put db k v = (None, db')"
  shows "MemDB_Get db' k = Inr v"
proof -
  from MemDB_Put_D [OF assms]
  have f: "fst (Block_put (current_block db) (iKey False k) v) = None"
    and c: "m_blockCache db' (m_timeID db') \<noteq> None"
    by simp_all
  from f have "Block_put (current_block db) (iKey False k) v
      = (None, snd (Block_put (current_block db) (iKey False k) v))"
    by (cases "Block_put (current_block db) (iKey False k) v") simp
  from Block_get_after_put [OF this] MemDB_Put_current [OF assms] MemDB_Get_via_current [OF c]
  show ?thesis by simp
qed

lemma iKey_inject: "(iKey d k = iKey d k') = (k = k')"
  by (simp add: iKey_def)

lemma MemDB_Get_kept:
  assumes "MemDB_Put db k v = (err, db')" and "k' \<noteq> k" and "MemDB_Get db k' = Inr v'"
  shows "MemDB_Get db' k' = Inr v'"
proof -
  let ?b = "current_block db"
  let ?b' = "snd (Block_put ?b (iKey False k) v)"
  from MemDB_Put_D [OF assms(1)] have c: "m_blockCache db' (m_timeID db') \<noteq> None"
    by simp
  from Block_put_extends [of ?b "iKey False k" v] obtain ys where
    e: "tbuf (b_data ?b') = tbuf (b_data ?b) @ ys"
    by blast
  have r: "b_records ?b' (iKey False k') = b_records ?b (iKey False k')"
    using assms(2) by (intro Block_put_records_other) (simp add: iKey_inject)
  from Block_get_extend [OF MemDB_Get_current [OF assms(3)] r e]
    MemDB_Put_current [OF assms(1)] MemDB_Get_via_current [OF c]
  show ?thesis by simp
qed

lemma no_record_kept:
  assumes "MemDB_Put db k v = (err, db')" and "k' \<noteq> k" and "no_record db k'"
  shows "no_record db' k'"
  using assms Block_put_records_other [of "iKey False k'" "iKey False k" "current_block db" v]
    MemDB_Put_current [OF assms(1)]
  by (simp add: no_record_def iKey_inject)

lemma no_record_Get: "no_record db k \<Longrightarrow> MemDB_Get db k = Inl (MemError errNotFound)"
  by (auto simp: no_record_def MemDB_Get_def current_block_def Block_get_def split: option.splits)

lemma put_all_view:
  assumes "put_all ks log db = (None, db1)" and "distinct ks"
  shows "(\<forall>k v. k \<in> set ks \<longrightarrow> log k = Some v \<longrightarrow> MemDB_Get db1 k = Inr v) \<and>
         (\<forall>k v. k \<notin> set ks \<longrightarrow> MemDB_Get db k = Inr v \<longrightarrow> MemDB_Get db1 k = Inr v) \<and>
         (\<forall>k. (k \<notin> set ks \<or> log k = None) \<longrightarrow> no_record db k \<longrightarrow> no_record db1 k)"
  using assms
proof (induction ks arbitrary: db)
  case Nil
  then show ?case by simp
next
  case (Cons k ks)
  from Cons.prems(2) have nk: "k \<notin> set ks" and d: "distinct ks"
    by simp_all
  show ?case
  proof (cases "log k")
    case None
    with Cons.prems(1) have "put_all ks log db = (None, db1)"
      by simp
    from Cons.IH [OF this d] None show ?thesis
      by auto
  next
    case (Some val)
    with Cons.prems(1) obtain db' where p: "MemDB_Put db k val = (None, db')"
      and r: "put_all ks log db' = (None, db1)"
      by (auto split: prod.splits option.splits)
    note ih = Cons.IH [OF r d]
    have g: "MemDB_Get db' k = Inr val"
      using p by (rule MemDB_Get_after_Put)
    have 1: "\<forall>k' v. k' \<in> set (k # ks) \<longrightarrow> log k' = Some v \<longrightarrow> MemDB_Get db1 k' = Inr v"
      using ih g nk Some by auto
    have 2: "\<forall>k' v. k' \<notin> set (k # ks) \<longrightarrow> MemDB_Get db k' = Inr v \<longrightarrow> MemDB_Get db1 k' = Inr v"
      using ih MemDB_Get_kept [OF p] by auto
    have 3: "\<forall>k'. (k' \<notin> set (k # ks) \<or> log k' = None) \<longrightarrow> no_record db k' \<longrightarrow> no_record db1 k'"
    proof (intro allI impI)
      fix k'
      assume a: "k' \<notin> set (k # ks) \<or> log k' = None" and n: "no_record db k'"
      from a Some have ne: "k' \<noteq> k" by auto
      from no_record_kept [OF p ne n] have "no_record db' k'" .
      moreover from a have "k' \<notin> set ks \<or> log k' = None" by auto
      ultimately show "no_record db1 k'" using ih by blast
    qed
    from 1 2 3 show ?thesis by blast
  qed
qed

lemma fresh_no_record: "no_record (fresh_db t cap) k"
  by (simp add: no_record_def fresh_db_def current_block_def newBlock_def)

lemma put_all_fresh:
  assumes "put_all ks log (fresh_db t cap) = (None, db1)" and "distinct ks" and "set ks = dom log"
  shows "MemDB_Get db1 k = (case log k of None \<Rightarrow> Inl (MemError errNotFound) | Some v \<Rightarrow> Inr v)"
proof (cases "log k")
  case None
  from put_all_view [OF assms(1,2)] None fresh_no_record [of t cap k]
  have "no_record db1 k" by blast
  with None show ?thesis by (simp add: no_record_Get)
next
  case (Some v)
  with assms(3) have "k \<in> set ks" by auto
  with put_all_view [OF assms(1,2)] Some show ?thesis by simp
qed

lemma scan_body_laid_out:
  assumes d: "drop (st_idx st) (recoveredLogs (st_wal st)) = l # ls"
    and lo: "laid_out (st_buf st) (segments (logFile (st_wal st))) (st_offset st) (st_size st)
               (l # ls) (g # gs)"
    and wr: "\<And>b off. WriteAt_ok env b off"
  shows "\<exists>st2. scan_body env recover_callback st = Continue st2 \<and>
           st_idx st2 = st_idx st + 1 \<and>
           drop (st_idx st2) (recoveredLogs (st_wal st2)) = ls \<and>
           st_buf st2 = st_buf st \<and> st_size st2 = st_size st \<and>
           segments (logFile (st_wal st2)) = segments (logFile (st_wal st)) \<and>
           st_offset st2 = st_offset st + ucast (lsize l) +
              ucast (freeSize (segments (logFile (st_wal st))) (loffset l + ucast (lsize l))) \<and>
           st_user st2 = spec_run g (st_user st) \<and>
           st_calls st2 = st_calls st @ [timeID l]"
proof -
  let ?w = "st_wal st"
  let ?i = "st_idx st"
  have lt: "?i < length (recoveredLogs ?w)"
  proof (rule ccontr)
    assume "\<not> ?i < length (recoveredLogs ?w)"
    with d show False by simp
  qed
  from Cons_nth_drop_Suc [OF lt] d
  have ul: "recoveredLogs ?w ! ?i = l" and dl: "drop (Suc ?i) (recoveredLogs ?w) = ls"
    by simp_all
  note lo' = lo [unfolded laid_out.simps]
  from lo' have st: "status l = logStatusWritten" and ec: "entryCount l \<noteq> 0"
    and ecg: "entryCount l = word_of_nat (length g)" and g: "group_ok g"
    and off: "0 \<le> sint (loffset l)"
    and b1: "\<not> st_size st <s ucast (lsize l)"
    and b2: "\<not> st_size st - st_offset st <s ucast (lsize l)"
    and sl: "buffer_Slice (st_buf st) (st_offset st + 28) (st_offset st + ucast (lsize l))
               = Some (frames g)"
    by blast+
  have ns: "\<not> skipped l"
    using st ec by (simp add: skipped_def)
  have cb: "recover_callback (timeID l)
              \<lparr> r_entryCount = entryCount l, r_logData = frames g, r_offset = 0 \<rparr> (st_user st)
            = (CbRet False None,
               \<lparr> r_entryCount = 0, r_logData = frames g,
                 r_offset = word_of_nat (length (frames g)) \<rparr>,
               spec_run g (st_user st))"
    using recover_callback_group [OF g, of "timeID l" "st_user st"]
    by (simp add: group_reader_def ecg)
  have wa: "file_writeAt env fb b (loffset l) \<noteq> None" for fb b
    using off wr by (simp add: file_writeAt_def)
  obtain fb where fb: "file_writeAt env (fileBytes ?w)
        (MarshalBinary (l\<lparr> status := logStatusReleased \<rparr>)) (loffset l) = Some fb"
    using wa by blast
  show ?thesis
    using ul ns b1 b2 sl cb fb dl lt
    by (simp add: scan_body_def Let_def advance_def)
qed

lemma scan_laid_out:
  assumes "laid_out (st_buf st) (segments (logFile (st_wal st))) (st_offset st) (st_size st)
             (drop (st_idx st) (recoveredLogs (st_wal st))) gs"
    and wr: "\<And>b off. WriteAt_ok env b off"
  shows "\<exists>st'. scan env recover_callback st = Finished st' \<and>
           st_user st' = spec_run (concat gs) (st_user st) \<and>
           st_calls st' = st_calls st @ map timeID (drop (st_idx st) (recoveredLogs (st_wal st)))"
  using assms(1)
proof (induction gs arbitrary: st)
  case Nil
  have "drop (st_idx st) (recoveredLogs (st_wal st)) = []"
  proof (cases "drop (st_idx st) (recoveredLogs (st_wal st))")
    case Nil
    then show ?thesis .
  next
    case (Cons l ls)
    with Nil.prems show ?thesis by simp
  qed
  then have "length (recoveredLogs (st_wal st)) \<le> st_idx st"
    by simp
  then have "scan env recover_callback st = Finished st"
    by (subst scan.simps) simp
  with \<open>drop (st_idx st) (recoveredLogs (st_wal st)) = []\<close> show ?case
    by (simp add: spec_run_def)
next
  case (Cons g gs)
  obtain l ls where d: "drop (st_idx st) (recoveredLogs (st_wal st)) = l # ls"
  proof (cases "drop (st_idx st) (recoveredLogs (st_wal st))")
    case Nil
    with Cons.prems show ?thesis by simp
  next
    case (Cons l ls)
    then show ?thesis by (rule that)
  qed
  from Cons.prems
  have lo: "laid_out (st_buf st) (segments (logFile (st_wal st))) (st_offset st) (st_size st)
              (l # ls) (g # gs)"
    unfolding d .
  from scan_body_laid_out [OF d lo wr] obtain st2 where
    b: "scan_body env recover_callback st = Continue st2"
    and i2: "st_idx st2 = st_idx st + 1"
    and d2: "drop (st_idx st2) (recoveredLogs (st_wal st2)) = ls"
    and e: "st_buf st2 = st_buf st" "st_size st2 = st_size st"
      "segments (logFile (st_wal st2)) = segments (logFile (st_wal st))"
    and o2: "st_offset st2 = st_offset st + ucast (lsize l) +
              ucast (freeSize (segments (logFile (st_wal st))) (loffset l + ucast (lsize l)))"
    and u2: "st_user st2 = spec_run g (st_user st)"
    and c2: "st_calls st2 = st_calls st @ [timeID l]"
    by blast
  from lo have "laid_out (st_buf st) (segments (logFile (st_wal st)))
      (st_offset st + ucast (lsize l) +
       ucast (freeSize (segments (logFile (st_wal st))) (loffset l + ucast (lsize l))))
      (st_size st) ls gs"
    unfolding laid_out.simps by blast
  then have "laid_out (st_buf st2) (segments (logFile (st_wal st2))) (st_offset st2) (st_size st2)
      (drop (st_idx st2) (recoveredLogs (st_wal st2))) gs"
    by (simp only: e o2 d2)
  from Cons.IH [OF this] obtain st' where
    f: "scan env recover_callback st2 = Finished st'"
    and u: "st_user st' = spec_run (concat gs) (st_user st2)"
    and c: "st_calls st' = st_calls st2 @ map timeID (drop (st_idx st2) (recoveredLogs (st_wal st2)))"
    by blast
  have lt: "\<not> length (recoveredLogs (st_wal st)) \<le> st_idx st"
  proof
    assume "length (recoveredLogs (st_wal st)) \<le> st_idx st"
    with d show False by simp
  qed
  have "scan env recover_callback st = scan env recover_callback st2"
    using lt b by (subst scan.simps) simp
  with f u c u2 c2 d d2 show ?case
    by (simp add: spec_run_append)
qed

lemma laid_out_not_released:
  "laid_out buf sg off sz logs gs \<Longrightarrow> remove_released logs = logs"
proof (induction logs arbitrary: off gs)
  case Nil
  show ?case by simp
next
  case (Cons l ls)
  then obtain g gs' where gs: "gs = g # gs'"
    by (cases gs) simp_all
  from Cons.prems have "laid_out buf sg off sz (l # ls) (g # gs')"
    unfolding gs .
  then have st: "status l = logStatusWritten"
    and r: "laid_out buf sg
        (off + ucast (lsize l) + ucast (freeSize sg (loffset l + ucast (lsize l)))) sz ls gs'"
    unfolding laid_out.simps by blast+
  from Cons.IH [OF r] st show ?case
    by (simp add: logStatusWritten_def logStatusReleased_def)
qed

lemma Read_wal_holds:
  assumes h: "wal_holds w gs"
    and ex: "recoveredLogs w \<noteq> [] \<Longrightarrow> Extend_ok env (first_size w)"
    and wr: "\<And>b off. WriteAt_ok env b off"
  shows "\<exists>res w1 r1. Read env recover_callback w r Map.empty
           = (Ret res, w1, r1, spec_run (concat gs) Map.empty, map timeID (recoveredLogs w)) \<and>
           recoveredLogs w1 = []"
proof (cases "recoveredLogs w")
  case Nil
  with h have "gs = []"
    by (simp add: wal_holds_def)
  with Nil show ?thesis
    by (simp add: Read_def Let_def spec_run_def)
next
  case (Cons l ls)
  with h obtain buf where
    rd: "file_readAt (fileBytes w) (first_size w) (loffset l) = Some buf"
    and lo: "laid_out buf (segments (logFile w)) 0 (first_size w) (l # ls) gs"
    by (auto simp: wal_holds_def split: option.splits)
  from laid_out_not_released [OF lo] Cons
  have rr: "remove_released (recoveredLogs w) = recoveredLogs w"
    by simp
  then have w0: "w\<lparr> recoveredLogs := remove_released (recoveredLogs w) \<rparr> = w"
    by simp
  let ?st = "\<lparr> st_idx = 0, st_size = first_size w, st_fileOff = loffset l, st_offset = 0,
               st_buf = [], st_wal = w, st_rdr = r, st_user = Map.empty, st_calls = [] \<rparr>"
  let ?st1 = "?st\<lparr> st_buf := [], st_offset := 0, st_buf := buf \<rparr>"
  have "laid_out (st_buf ?st1) (segments (logFile (st_wal ?st1))) (st_offset ?st1)
          (st_size ?st1) (drop (st_idx ?st1) (recoveredLogs (st_wal ?st1))) gs"
    using lo Cons by simp
  from scan_laid_out [OF this wr] obtain st' where
    f: "scan env recover_callback ?st1 = Finished st'"
    and u: "st_user st' = spec_run (concat gs) Map.empty"
    and c: "st_calls st' = map timeID (recoveredLogs w)"
    by auto
  have e: "Extend_ok env (first_size w)"
    using ex Cons by simp
  have rl: "read_loop env recover_callback ?st = Finished st'"
    using e rd f by (subst read_loop.simps) (simp add: Let_def)
  show ?thesis
    unfolding Read_def Let_def w0
    using Cons rl u c
    by simp
qed

lemma laid_out_group_ok:
  "laid_out buf sg off sz logs gs \<Longrightarrow> \<forall>g\<in>set gs. group_ok g"
proof (induction logs arbitrary: off gs)
  case Nil
  then show ?case by simp
next
  case (Cons l ls)
  then obtain g gs' where gs: "gs = g # gs'"
    by (cases gs) simp_all
  from Cons.prems have "laid_out buf sg off sz (l # ls) (g # gs')"
    unfolding gs .
  then have g: "group_ok g"
    and r: "laid_out buf sg
        (off + ucast (lsize l) + ucast (freeSize sg (loffset l + ucast (lsize l)))) sz ls gs'"
    unfolding laid_out.simps by blast+
  from Cons.IH [OF r] g gs show ?case
    by simp
qed

lemma wal_holds_group_ok: "wal_holds w gs \<Longrightarrow> \<forall>g\<in>set gs. group_ok g"
  by (auto simp: wal_holds_def split: list.splits option.splits dest: laid_out_group_ok)

lemma startRecover_result:
  assumes h: "wal_holds w gs"
    and ex: "Extend_ok env (first_size w)"
    and wr: "\<And>b off. WriteAt_ok env b off"
  shows "\<exists>w1. startRecover env Reset_ok range_order closed w db =
     (if closed then (WalError errClosed, w, db)
      else if \<not> Reset_ok then (WalError errReset, w1, db)
      else
        (case put_all (range_order (spec_run (concat gs) Map.empty))
                (spec_run (concat gs) Map.empty) db of
           (Some e, db') \<Rightarrow>
             (MemErr e, w1\<lparr> fileBytes := [], logFile := (logFile w1)\<lparr> fsize := 0 \<rparr> \<rparr>, db')
         | (None, db') \<Rightarrow>
             (RecoverOk, w1\<lparr> fileBytes := [], logFile := (logFile w1)\<lparr> fsize := 0 \<rparr> \<rparr>, db')))
     \<and> recoveredLogs w1 = []"
proof -
  from Read_wal_holds [OF h ex wr, of "\<lparr> r_entryCount = 0, r_logData = [], r_offset = 0 \<rparr>"]
  obtain res w1 r1 where
    r: "Read env recover_callback w \<lparr> r_entryCount = 0, r_logData = [], r_offset = 0 \<rparr> Map.empty
          = (Ret res, w1, r1, spec_run (concat gs) Map.empty, map timeID (recoveredLogs w))"
    and e: "recoveredLogs w1 = []"
    by blast
  show ?thesis
    by (rule exI [of _ w1]) (simp add: startRecover_def r e Let_def split: prod.splits option.splits)
qed

text \<open>
  Recovery in one pass over the buffer. Let the WAL hold the groups of writes \<open>gs\<close>, all
  written and none applied, laid out so that \<^verbatim>\<open>Read\<close> finds them in its first pass, and
  let \<^verbatim>\<open>startRecover\<close> run on it with an empty mem store and succeed. Then the callback has folded the records of the groups, in their
  order, into the map that the writes themselves produce (a put binds its key, a delete
  removes it); the WAL has been reset; and the mem store answers every key as that map
  does: the value last put for a key that survives, not found for every other key.
\<close>

theorem startRecover_replay:
  assumes h: "wal_holds w gs"
    and ex: "Extend_ok env (first_size w)"
    and wr: "\<And>b off. WriteAt_ok env b off"
    and d: "distinct (range_order (spec_run (concat gs) Map.empty))"
    and s: "set (range_order (spec_run (concat gs) Map.empty)) = dom (spec_run (concat gs) Map.empty)"
    and ok: "startRecover env Reset_ok range_order closed w (fresh_db t cap) = (RecoverOk, w', db')"
  shows "replay (map group_reader gs) Map.empty = (CbRet False None, spec_run (concat gs) Map.empty) \<and>
         recoveredLogs w' = [] \<and> fileBytes w' = [] \<and>
         MemDB_Get db' k = (case spec_run (concat gs) Map.empty k of
                              None \<Rightarrow> Inl (MemError errNotFound)
                            | Some v \<Rightarrow> Inr v)"
proof -
  let ?log = "spec_run (concat gs) Map.empty"
  have g: "\<forall>g\<in>set gs. group_ok g"
    using h by (rule wal_holds_group_ok)
  from startRecover_result [OF h ex wr, of Reset_ok range_order closed "fresh_db t cap"] ok
  obtain w1 where p: "put_all (range_order ?log) ?log (fresh_db t cap) = (None, db')"
    and w': "w' = w1\<lparr> fileBytes := [], logFile := (logFile w1)\<lparr> fsize := 0 \<rparr> \<rparr>"
    and e: "recoveredLogs w1 = []"
    by (auto split: if_splits prod.splits option.splits)
  from put_all_fresh [OF p d s, of k] replay_groups [OF g, of Map.empty] w' e
  show ?thesis by simp
qed

lemma le_bytes_8:
  "le_bytes 8 w = [ucast w, ucast (drop_bit 8 w), ucast (drop_bit 16 w), ucast (drop_bit 24 w),
     ucast (drop_bit 32 w), ucast (drop_bit 40 w), ucast (drop_bit 48 w), ucast (drop_bit 56 w)]"
  by (simp add: eval_nat_numeral)

lemma length_frames_group1: "length (frames group1) = 28"
  by (simp add: frames_def group1_def length_frame length_le_bytes)

lemma length_frames_group2: "length (frames group2) = 35"
  by (simp add: frames_def group2_def length_frame length_le_bytes)

lemma length_two_groups_bytes: "length two_groups_bytes = 119"
  by (simp add: two_groups_bytes_def length_frames_group1 length_frames_group2)

lemma first_size_two_groups: "first_size two_groups = 119"
  by (simp add: first_size_def two_groups_def word_sless_alt)

lemma readAt_two_groups: "file_readAt two_groups_bytes 119 0 = Some two_groups_bytes"
  by (simp add: file_readAt_def length_two_groups_bytes go_slice_def)

lemma Slice_group1:
  "buffer_Slice two_groups_bytes (0 + 28) (0 + ucast (56 :: u32)) = Some (frames group1)"
  by (simp add: buffer_Slice_def length_two_groups_bytes go_slice_def)
     (simp add: two_groups_bytes_def length_frames_group1)

lemma Slice_group2:
  "buffer_Slice two_groups_bytes (56 + 28) (56 + ucast (63 :: u32)) = Some (frames group2)"
  by (simp add: buffer_Slice_def length_two_groups_bytes go_slice_def)
     (simp add: two_groups_bytes_def length_frames_group1 length_frames_group2)

lemma group_ok_examples: "group_ok group1" "group_ok group2"
  by (simp_all add: group_ok_def length_frames_group1 length_frames_group2)
     (simp_all add: group1_def group2_def)

lemma laid_out_two_groups:
  "laid_out two_groups_bytes
     \<lparr> sg0 = \<lparr> seg_offset = 47, seg_size = 0 \<rparr>, sg1 = \<lparr> seg_offset = 47, seg_size = 0 \<rparr>,
       sg2 = \<lparr> seg_offset = 0, seg_size = 0 \<rparr> \<rparr> 0 119
     [\<lparr> version = 1, status = logStatusWritten, timeID = 5, entryCount = 2,
        lsize = 56, loffset = 0 \<rparr>,
      \<lparr> version = 1, status = logStatusWritten, timeID = 6, entryCount = 2,
        lsize = 63, loffset = 56 \<rparr>] [group1, group2]"
  unfolding laid_out.simps
  using Slice_group1 Slice_group2 group_ok_examples
  apply (simp add: freeSize_def word_sless_alt)
  apply (simp add: group1_def group2_def)
  done

lemma wal_holds_two_groups: "wal_holds two_groups [group1, group2]"
  unfolding wal_holds_def first_size_two_groups
  using readAt_two_groups laid_out_two_groups
  by (simp add: two_groups_def)

lemma spec_run_two_groups:
  "spec_run (concat [group1, group2]) Map.empty = [2 \<mapsto> [20], 3 \<mapsto> [30]]"
  by (simp add: spec_run_def group1_def group2_def fun_eq_iff)

lemma range_123_two_groups: "range_123 [2 \<mapsto> [20], 3 \<mapsto> [30]] = [2, 3]"
  by (simp add: range_123_def)

lemma put_all_two_groups:
  "\<exists>db'. put_all [2, 3] [2 \<mapsto> [20], 3 \<mapsto> [30]] (fresh_db 9 1024) = (None, db')"
  by (simp add: fresh_db_def MemDB_Put_def current_block_def newBlock_def Block_put_def
      Table_allocate_def Table_writeAt_def Let_def iKey_def length_le_bytes)

theorem startRecover_replay_witness:
  "wal_holds two_groups [group1, group2] \<and>
   Extend_ok all_ok (first_size two_groups) \<and>
   distinct (range_123 (spec_run (concat [group1, group2]) Map.empty)) \<and>
   set (range_123 (spec_run (concat [group1, group2]) Map.empty))
     = dom (spec_run (concat [group1, group2]) Map.empty) \<and>
   (\<exists>w' db'. startRecover all_ok True range_123 False two_groups (fresh_db 9 1024)
                = (RecoverOk, w', db') \<and>
             recoveredLogs w' = [] \<and> fileBytes w' = [] \<and>
             MemDB_Get db' 1 = Inl (MemError errNotFound) \<and>
             MemDB_Get db' 2 = Inr [20] \<and>
             MemDB_Get db' 3 = Inr [30])"
proof -
  let ?log = "spec_run (concat [group1, group2]) Map.empty"
  note h = wal_holds_two_groups
  have ex: "Extend_ok all_ok (first_size two_groups)"
    by (simp add: all_ok_def always_def)
  have wr: "WriteAt_ok all_ok b off" for b off
    by (simp add: all_ok_def always2_def)
  have d: "distinct (range_123 ?log)"
    unfolding spec_run_two_groups range_123_two_groups by simp
  have s: "set (range_123 ?log) = dom ?log"
    unfolding spec_run_two_groups range_123_two_groups by (auto split: if_splits)
  from put_all_two_groups obtain db' where
    p: "put_all (range_123 ?log) ?log (fresh_db 9 1024) = (None, db')"
    unfolding spec_run_two_groups range_123_two_groups by blast
  from startRecover_result [OF h ex wr, of True range_123 False "fresh_db 9 1024"] p
  obtain w' where ok: "startRecover all_ok True range_123 False two_groups (fresh_db 9 1024)
      = (RecoverOk, w', db')"
    by auto
  note r = startRecover_replay [OF h ex wr d s ok]
  from r [of 1] r [of 2] r [of 3]
  have "recoveredLogs w' = [] \<and> fileBytes w' = [] \<and>
        MemDB_Get db' 1 = Inl (MemError errNotFound) \<and>
        MemDB_Get db' 2 = Inr [20] \<and> MemDB_Get db' 3 = Inr [30]"
    unfolding spec_run_two_groups by simp
  with ok h ex d s show ?thesis
    by blast
qed

subsection \<open>Recovery when a log is larger than the buffer\<close>

text \<open>
  Claim C1. Replaying a WAL whose groups are all written and none applied, then resetting
  it, is to leave a mem store equivalent to having run the original writes directly. The
  code does not do so when a log after the first is larger than the buffer. The file of
  the example holds the two groups \<open>group1\<close> (put 1, put 2) and \<open>group2\<close> (delete 1, put
  3), each after its header; the writes themselves leave key 1 unbound, 2 bound to \<open>[20]\<close>
  and 3 bound to \<open>[30]\<close>. With a buffer of 256 bytes \<^verbatim>\<open>startRecover\<close> leaves exactly that.
  With a buffer of 60 bytes \<^verbatim>\<open>Read\<close> returns no error and calls the callback for both time
  IDs, and \<^verbatim>\<open>startRecover\<close> succeeds, but the map and the mem store hold \<open>[10]\<close> for key 1
  and nothing for key 3: at the second log (63 bytes) \<^verbatim>\<open>Read\<close> leaves its inner loop with
  \<^verbatim>\<open>size = 63\<close> and \<^verbatim>\<open>fileOff\<close> still at the first log, so the second pass hands the
  records of the first group to the callback again, under the second group's time ID, and
  marks the second log released.
\<close>

theorem startRecover_large_log:
  "go_slice (fileBytes (two_logs 60)) (47 + 28) (47 + 56) = frames group1 \<and>
   go_slice (fileBytes (two_logs 60)) (103 + 28) (103 + 63) = frames group2 \<and>
   spec_run (group1 @ group2) Map.empty 1 = None \<and>
   spec_run (group1 @ group2) Map.empty 2 = Some [20] \<and>
   spec_run (group1 @ group2) Map.empty 3 = Some [30] \<and>
   fst (recover_two_logs 256) = RecoverOk \<and>
   MemDB_Get (recovered_db 256) 1 = Inl (MemError errNotFound) \<and>
   MemDB_Get (recovered_db 256) 2 = Inr [20] \<and>
   MemDB_Get (recovered_db 256) 3 = Inr [30] \<and>
   fst (read_two_logs 60) = Ret None \<and>
   snd (snd (snd (snd (read_two_logs 60)))) = [5, 6] \<and>
   recovered_log 60 1 = Some [10] \<and>
   recovered_log 60 2 = Some [20] \<and>
   recovered_log 60 3 = None \<and>
   fst (recover_two_logs 60) = RecoverOk \<and>
   MemDB_Get (recovered_db 60) 1 = Inr [10] \<and>
   MemDB_Get (recovered_db 60) 2 = Inr [20] \<and>
   MemDB_Get (recovered_db 60) 3 = Inl (MemError errNotFound)"
  by code_simp

end
